theory Spec2Isabelle
  imports Main "HOL-Library.AList"
begin

section \<open>Strings and the regular expressions of the source\<close>

text \<open>
  JavaScript strings are modelled as \<open>string\<close> (a list of characters). The source uses
  regular expressions for every piece of string analysis; each one is written out below as
  the function that computes the same matches, with the regular expression it stands for
  quoted beside it.

  The character class \<^verbatim>\<open>[$\w\-]\<close> (no unicode flag, so \<^verbatim>\<open>\w\<close> is
  \<^verbatim>\<open>[A-Za-z0-9_]\<close>) is \<open>isKeyChar\<close>; \<^verbatim>\<open>\d\<close> is \<open>isDigit\<close>.
\<close>

definition isDigit :: "char \<Rightarrow> bool" where
  "isDigit c \<longleftrightarrow> c \<in> set ''0123456789''"

definition isKeyChar :: "char \<Rightarrow> bool" where
  "isKeyChar c \<longleftrightarrow>
     c \<in> set ''$-_0123456789ABCDEFGHIJKLMNOPQRSTUVWXYZabcdefghijklmnopqrstuvwxyz''"

text \<open>\<^verbatim>\<open>s.split(c)\<close> for a one-character separator: the pieces between the separators,
  empty pieces included; the empty string gives one empty piece.\<close>

fun split_on :: "char \<Rightarrow> string \<Rightarrow> string list" where
  "split_on sep [] = [[]]"
| "split_on sep (c # cs) =
     (if c = sep then [] # split_on sep cs
      else (case split_on sep cs of [] \<Rightarrow> [[c]] | p # ps \<Rightarrow> (c # p) # ps))"

text \<open>The language of \<^verbatim>\<open>[$\w\-]+(\.[$\w\-]+)*\<close>: one or more non-empty runs of key
  characters, separated by single dots.\<close>

definition is_dotted :: "string \<Rightarrow> bool" where
  "is_dotted s \<longleftrightarrow> list_all (\<lambda>p. p \<noteq> [] \<and> list_all isKeyChar p) (split_on CHR ''.'' s)"

text \<open>\<open>isArrayKey\<close> is \<^verbatim>\<open>/^\[[^\[\]]*\]$/.test(val)\<close> and \<open>isIndexKey\<close> is
  \<^verbatim>\<open>/^-?\d+$/.test(val)\<close>. Both are also applied to \<^verbatim>\<open>nextKey\<close>, which is
  \<^verbatim>\<open>undefined\<close> after the last segment: \<^verbatim>\<open>test\<close> then tests the string
  \<^verbatim>\<open>"undefined"\<close>, which matches neither (\<open>isArrayKeyOpt\<close>, \<open>isIndexKeyOpt\<close>).\<close>

definition isArrayKey :: "string \<Rightarrow> bool" where
  "isArrayKey s \<longleftrightarrow>
     (case s of
        [] \<Rightarrow> False
      | c # cs \<Rightarrow> c = CHR ''['' \<and> cs \<noteq> [] \<and> last cs = CHR '']'' \<and>
                 list_all (\<lambda>x. x \<noteq> CHR ''['' \<and> x \<noteq> CHR '']'') (butlast cs))"

definition isIndexKey :: "string \<Rightarrow> bool" where
  "isIndexKey s \<longleftrightarrow>
     (case s of
        [] \<Rightarrow> False
      | c # cs \<Rightarrow> if c = CHR ''-'' then cs \<noteq> [] \<and> list_all isDigit cs
                 else list_all isDigit (c # cs))"

definition isArrayKeyOpt :: "string option \<Rightarrow> bool" where
  "isArrayKeyOpt k = (case k of None \<Rightarrow> False | Some s \<Rightarrow> isArrayKey s)"

definition isIndexKeyOpt :: "string option \<Rightarrow> bool" where
  "isIndexKeyOpt k = (case k of None \<Rightarrow> False | Some s \<Rightarrow> isIndexKey s)"

text \<open>\<open>isNegIndex\<close> is \<^verbatim>\<open>/^-\d+$/.test(cleanKey)\<close> of \<^verbatim>\<open>writeValue\<close>.\<close>

definition isNegIndex :: "string \<Rightarrow> bool" where
  "isNegIndex s \<longleftrightarrow>
     (case s of [] \<Rightarrow> False | c # cs \<Rightarrow> c = CHR ''-'' \<and> cs \<noteq> [] \<and> list_all isDigit cs)"

text \<open>\<open>cleanKey\<close> is \<^verbatim>\<open>key.replace(/(^\[)|(\]$)/g, "")\<close>: an opening bracket at the
  start and a closing bracket at the end are removed, each on its own.\<close>

definition cleanKey :: "string \<Rightarrow> string" where
  "cleanKey s =
     (let s1 = (case s of [] \<Rightarrow> [] | c # cs \<Rightarrow> if c = CHR ''['' then cs else s)
      in if s1 \<noteq> [] \<and> last s1 = CHR '']'' then butlast s1 else s1)"

subsection \<open>Path tokenization\<close>

text \<open>
  \<^verbatim>\<open>path.match(re)\<close> with a global regular expression returns every match, scanning
  from left to right: at each position the pattern is tried; after a match the scan goes
  on behind it, otherwise one character further. \<open>scan\<close> is that loop. Its argument
  \<open>m prev s\<close> tries the pattern where the rest of the input is \<open>s\<close> and the character
  before it is \<open>prev\<close> (\<open>None\<close> at the start of the input), and returns the length of
  the match. Both patterns of the source match at least one character, so the matched text
  is written \<open>c # take (n - 1) cs\<close>. No match at all is \<^verbatim>\<open>null\<close> in the source, the empty
  list here.
\<close>

fun scan :: "(char option \<Rightarrow> string \<Rightarrow> nat option) \<Rightarrow> char option \<Rightarrow> string \<Rightarrow> string list" where
  "scan m prev [] = []"
| "scan m prev (c # cs) =
     (case m prev (c # cs) of
        None \<Rightarrow> scan m (Some c) cs
      | Some n \<Rightarrow> (c # take (n - 1) cs) # scan m (Some (last (c # take (n - 1) cs))) (drop (n - 1) cs))"

text \<open>The lookbehind \<^verbatim>\<open>(?<=\.|^)\<close> and the lookahead \<^verbatim>\<open>(?=\.|$)\<close>.\<close>

definition at_start :: "char option \<Rightarrow> bool" where
  "at_start prev \<longleftrightarrow> prev = None \<or> prev = Some CHR ''.''"

definition at_end :: "string \<Rightarrow> bool" where
  "at_end s \<longleftrightarrow> (case s of [] \<Rightarrow> True | c # _ \<Rightarrow> c = CHR ''.'')"

text \<open>
  A bracketed segment \<^verbatim>\<open>\[...\]\<close>: the content cannot hold a closing bracket, so it is
  the text up to the first one. On the read side the content is
  \<^verbatim>\<open>[$\w\-]+(\.[$\w\-]+)*\<close>; on the write side it is
  \<^verbatim>\<open>([$\w\-]+(\.[$\w\-]+)*)*\<close>, the same language and the empty string.
  \<open>bracket_len ok s\<close> is the length of the bracketed segment at the head of \<open>s\<close> whose
  content satisfies \<open>ok\<close>, together with the input behind it.
\<close>

definition bracket_len :: "(string \<Rightarrow> bool) \<Rightarrow> string \<Rightarrow> (nat \<times> string) option" where
  "bracket_len ok s =
     (case s of
        [] \<Rightarrow> None
      | c # cs \<Rightarrow>
          if c \<noteq> CHR ''['' then None
          else (let content = takeWhile (\<lambda>x. x \<noteq> CHR '']'') cs;
                    rest = dropWhile (\<lambda>x. x \<noteq> CHR '']'') cs
                in if rest \<noteq> [] \<and> ok content then Some (length content + 2, tl rest) else None))"

text \<open>A run of key characters followed by a dot or the end of the input:
  \<^verbatim>\<open>[$\w\-]+(?=\.|$)\<close>. The run is greedy, and a shorter run is followed by a key
  character, so only the longest run can match.\<close>

definition key_len :: "string \<Rightarrow> nat option" where
  "key_len s =
     (let k = takeWhile isKeyChar s
      in if k \<noteq> [] \<and> at_end (dropWhile isKeyChar s) then Some (length k) else None)"

text \<open>The pattern of \<^verbatim>\<open>readValue\<close>:
  \<^verbatim>\<open>/\*|(?<=\.|^)((\[[$\w\-]+(\.[$\w\-]+)*\])|[$\w\-]+)(?=\.|$)/g\<close>.\<close>

definition read_match :: "char option \<Rightarrow> string \<Rightarrow> nat option" where
  "read_match prev s =
     (if s \<noteq> [] \<and> hd s = CHR ''*'' then Some 1
      else if at_start prev then
        (case bracket_len is_dotted s of
           Some (n, rest) \<Rightarrow> if at_end rest then Some n else key_len s
         | None \<Rightarrow> key_len s)
      else None)"

text \<open>The pattern of \<^verbatim>\<open>writeValue\<close>:
  \<^verbatim>\<open>/(?<=\.|^)(\[([$\w\-]+(\.[$\w\-]+)*)*\])|[$\w\-]+(?=\.|$)/g\<close>. The alternation binds
  weakest: the lookbehind belongs to the bracketed alternative only, the lookahead to the
  key alternative only.\<close>

definition write_match :: "char option \<Rightarrow> string \<Rightarrow> nat option" where
  "write_match prev s =
     (case (if at_start prev then bracket_len (\<lambda>c. c = [] \<or> is_dotted c) s else None) of
        Some (n, rest) \<Rightarrow> Some n
      | None \<Rightarrow> key_len s)"

definition read_segments :: "string \<Rightarrow> string list" where
  "read_segments path = scan read_match None path"

definition write_segments :: "string \<Rightarrow> string list" where
  "write_segments path = scan write_match None path"


lemma scan_total_length: "sum_list (map length (scan m prev s)) \<le> length s"
proof (induction m prev s rule: scan.induct)
  case (1 m prev)
  show ?case by simp
next
  case (2 m prev c cs)
  show ?case
  proof (cases "m prev (c # cs)")
    case None
    with 2 show ?thesis by simp
  next
    case (Some n)
    with 2 have "sum_list (map length (scan m (Some (last (c # take (n - 1) cs))) (drop (n - 1) cs)))
        \<le> length cs - (n - 1)" by simp
    with Some show ?thesis by simp
  qed
qed

lemma scan_nonempty: "seg \<in> set (scan m prev s) \<Longrightarrow> seg \<noteq> []"
  by (induction m prev s rule: scan.induct) (auto split: option.splits)

section \<open>Values\<close>

text \<open>
  A JavaScript value as this library meets it: \<^verbatim>\<open>undefined\<close>, the JSON scalars, arrays
  and plain objects. An array is the list of its slots, \<open>None\<close> for a hole (a slot that
  was never assigned: \<^verbatim>\<open>at\<close> reads it as \<^verbatim>\<open>undefined\<close>, \<^verbatim>\<open>forEach\<close> and
  \<^verbatim>\<open>map\<close> skip it). A plain object is the list of its own properties.

  Limits of the model, all of them outside what the library is documented for:
  \<^item> numbers are integers, characters are bytes;
  \<^item> a property is looked up among the own properties only, so keys that name a member of
    a built-in prototype (\<^verbatim>\<open>__proto__\<close>, \<^verbatim>\<open>constructor\<close>, \<^verbatim>\<open>length\<close> of a string, ...)
    are not covered;
  \<^item> a property of an array that is not an element (set by \<^verbatim>\<open>a["01"] = v\<close>) is
    dropped: no operation of the library reads it;
  \<^item> the file has no strict-mode directive and is loaded as a script or a CommonJS module,
    so an assignment to a property of a primitive is silently ignored;
  \<^item> values are trees: in-place mutation of \<^verbatim>\<open>writeValue\<close> is modelled by returning the
    updated root.
\<close>

datatype jsval =
    Undefined
  | Null
  | Bool bool
  | Num int
  | Str string
  | Arr "jsval option list"
  | Obj "(string \<times> jsval) list"

datatype error =
    PathNotString      \<comment> \<open>\<^verbatim>\<open>Error("Path must be a string, received: ...")\<close>\<close>
  | PathEmpty          \<comment> \<open>\<^verbatim>\<open>Error("Path cannot be an empty string")\<close>\<close>
  | InvalidSegment     \<comment> \<open>\<^verbatim>\<open>Error("Invalid path segment in: ...")\<close>\<close>
  | MapNotString       \<comment> \<open>\<^verbatim>\<open>Error("Map must be a string, received: ...")\<close>\<close>
  | MapArrayNotArray   \<comment> \<open>\<^verbatim>\<open>Error("Map array must be an array, received: ...")\<close>\<close>
  | TypeError          \<comment> \<open>raised by the runtime: a property of \<^verbatim>\<open>undefined\<close> or
                           \<^verbatim>\<open>null\<close> is read, or a missing method is called\<close>
  | SyntaxError        \<comment> \<open>raised by \<^verbatim>\<open>JSON.parse\<close>\<close>
  | RangeError         \<comment> \<open>raised by the runtime when the call stack is used up\<close>

definition isUndefined :: "jsval \<Rightarrow> bool" where
  "isUndefined v \<longleftrightarrow> v = Undefined"

definition isNull :: "jsval \<Rightarrow> bool" where
  "isNull v \<longleftrightarrow> v = Null"

definition isObject :: "jsval \<Rightarrow> bool" where
  "isObject v = (case v of Obj _ \<Rightarrow> True | _ \<Rightarrow> False)"

definition isArray :: "jsval \<Rightarrow> bool" where
  "isArray v = (case v of Arr _ \<Rightarrow> True | _ \<Rightarrow> False)"

text \<open>\<^verbatim>\<open>o[key]\<close> on a plain object, and the assignment \<^verbatim>\<open>o[key] = v\<close>
  (\<open>AList.update\<close>: an existing property keeps its place, a new one goes last).\<close>

definition get_prop :: "(string \<times> jsval) list \<Rightarrow> string \<Rightarrow> jsval" where
  "get_prop ps k = (case map_of ps k of None \<Rightarrow> Undefined | Some v \<Rightarrow> v)"

definition set_prop :: "string \<Rightarrow> 'a \<Rightarrow> (string \<times> 'a) list \<Rightarrow> (string \<times> 'a) list" where
  "set_prop k v ps = AList.update k v ps"

text \<open>
  An index segment reaches \<^verbatim>\<open>at\<close>, \<^verbatim>\<open>splice\<close> and the element assignment as a string
  matching \<^verbatim>\<open>-?\d+\<close>; the runtime converts it to a number. \<open>parse_int\<close> is that
  conversion (\<^verbatim>\<open>"-0"\<close> is 0). The runtime rounds beyond \<open>2^53\<close>, far beyond the length
  of any array, where every index is out of range either way.
\<close>

definition digit_val :: "char \<Rightarrow> nat" where
  "digit_val c = of_char c - 48"

definition nat_of_digits :: "string \<Rightarrow> nat" where
  "nat_of_digits ds = foldl (\<lambda>a c. 10 * a + digit_val c) 0 ds"

definition parse_int :: "string \<Rightarrow> int" where
  "parse_int s =
     (case s of
        [] \<Rightarrow> 0
      | c # cs \<Rightarrow> if c = CHR ''-'' then - int (nat_of_digits cs) else int (nat_of_digits s))"

text \<open>\<^verbatim>\<open>a.at(i)\<close>: a negative index counts from the end; outside the array, and at a
  hole, the result is \<^verbatim>\<open>undefined\<close>. \<open>rel_index\<close> is the slot it reads, if there is one.\<close>

definition rel_index :: "nat \<Rightarrow> int \<Rightarrow> nat option" where
  "rel_index len i =
     (let j = (if i < 0 then int len + i else i)
      in if 0 \<le> j \<and> j < int len then Some (nat j) else None)"

definition arr_at :: "jsval option list \<Rightarrow> int \<Rightarrow> jsval" where
  "arr_at xs i =
     (case rel_index (length xs) i of
        None \<Rightarrow> Undefined
      | Some j \<Rightarrow> (case xs ! j of None \<Rightarrow> Undefined | Some v \<Rightarrow> v))"

text \<open>\<^verbatim>\<open>a.map(f)\<close> and \<^verbatim>\<open>a.forEach(f)\<close> where \<open>f\<close> may throw: holes are skipped
  and stay holes, the first exception ends the loop. For \<^verbatim>\<open>forEach\<close> the function
  returns the item as the callback left it.\<close>

fun map_items :: "(jsval \<Rightarrow> error + jsval) \<Rightarrow> jsval option list \<Rightarrow> error + jsval option list" where
  "map_items f [] = Inr []"
| "map_items f (None # xs) =
     (case map_items f xs of Inl e \<Rightarrow> Inl e | Inr ys \<Rightarrow> Inr (None # ys))"
| "map_items f (Some x # xs) =
     (case f x of
        Inl e \<Rightarrow> Inl e
      | Inr y \<Rightarrow> (case map_items f xs of Inl e \<Rightarrow> Inl e | Inr ys \<Rightarrow> Inr (Some y # ys)))"

lemma map_items_cong [fundef_cong]:
  "xs = ys \<Longrightarrow> (\<And>x. Some x \<in> set ys \<Longrightarrow> f x = g x) \<Longrightarrow> map_items f xs = map_items g ys"
proof (induction ys arbitrary: xs)
  case Nil
  then show ?case by simp
next
  case (Cons y ys)
  then show ?case by (cases y) (auto split: sum.splits)
qed

section \<open>Reading\<close>

text \<open>
  \<^verbatim>\<open>readValue(obj, path)\<close>. \<open>readValue\<close> takes the path as a value, for the check
  \<^verbatim>\<open>typeof path !== "string"\<close>; \<open>readPath\<close> is the function on a string path, which
  the array mapping calls again on every item; \<open>read_fold\<close> is the
  \<^verbatim>\<open>segments.reduce(...)\<close>, the accumulator first.
\<close>

text \<open>The array mapping calls \<open>readPath\<close> on a part of one segment, so the recursion ends
  with the path getting shorter. \<open>path_weight\<close> and \<open>seg_weight\<close> measure that (they are
  used for termination only).\<close>

definition path_weight :: "string \<Rightarrow> nat" where
  "path_weight p = 2 * length p - 1"

definition seg_weight :: "string \<Rightarrow> nat" where
  "seg_weight s = max 1 (2 * length s - 1)"


lemma cleanKey_shorter: "isArrayKey k \<Longrightarrow> length (cleanKey k) < length k"
  by (cases k) (auto simp: isArrayKey_def cleanKey_def Let_def split: if_splits)

lemma seg_weight_sum:
  "\<forall>s \<in> set segs. s \<noteq> [] \<Longrightarrow>
     sum_list (map seg_weight segs) \<le> 2 * sum_list (map length segs) - 1"
proof (induction segs)
  case Nil
  show ?case by simp
next
  case (Cons s segs)
  then have ih: "sum_list (map seg_weight segs) \<le> 2 * sum_list (map length segs) - 1" by simp
  have "0 < length s" using Cons.prems by simp
  then have "seg_weight s = 2 * length s - 1" by (cases s) (simp_all add: seg_weight_def)
  with ih \<open>0 < length s\<close> show ?case by simp
qed

lemma scan_weight: "sum_list (map seg_weight (scan m prev s)) \<le> path_weight s"
proof -
  have "sum_list (map seg_weight (scan m prev s))
      \<le> 2 * sum_list (map length (scan m prev s)) - 1"
    by (rule seg_weight_sum) (auto dest: scan_nonempty)
  also have "\<dots> \<le> 2 * length s - 1"
    using scan_total_length [of m prev s] by simp
  finally show ?thesis by (simp add: path_weight_def)
qed

lemma path_weight_seg: "path_weight k \<le> seg_weight k"
  by (simp add: path_weight_def seg_weight_def)

lemma path_weight_clean: "isArrayKey k \<Longrightarrow> path_weight (cleanKey k) < seg_weight k"
  using cleanKey_shorter [of k] by (simp add: path_weight_def seg_weight_def)

lemma seg_weight_pos: "0 < seg_weight k"
  by (simp add: seg_weight_def)
lemma isDigit_not_bracket: "isDigit c \<Longrightarrow> c \<noteq> CHR ''['' \<and> c \<noteq> CHR '']'' \<and> c \<noteq> CHR ''-''"
  by (auto simp: isDigit_def)

lemma cleanKey_index: "isIndexKey k \<Longrightarrow> cleanKey k = k"
proof -
  assume a: "isIndexKey k"
  then obtain c cs where k: "k = c # cs" by (cases k) (auto simp: isIndexKey_def)
  from a k have c: "c \<noteq> CHR ''[''"
    by (auto simp: isIndexKey_def isDigit_def split: if_splits)
  from a k have "isDigit (last k)"
    by (cases "cs = []") (auto simp: isIndexKey_def list_all_iff split: if_splits)
  then have "last k \<noteq> CHR '']''" by (simp add: isDigit_not_bracket)
  with c k show ?thesis by (simp add: cleanKey_def)
qed

lemma read_segments_measure:
  "2 * sum_list (map seg_weight (read_segments path)) < Suc (2 * path_weight path)"
  using scan_weight [of read_match None path] by (simp add: read_segments_def)

lemma cleanKey_measure:
  "isArrayKey key \<or> isIndexKey key \<Longrightarrow> \<not> isIndexKey (cleanKey key) \<Longrightarrow>
     Suc (2 * path_weight (cleanKey key)) < 2 * seg_weight key + n"
proof -
  assume a: "isArrayKey key \<or> isIndexKey key" and b: "\<not> isIndexKey (cleanKey key)"
  have "isArrayKey key" using a b cleanKey_index [of key] by auto
  then show ?thesis using path_weight_clean [of key] by simp
qed

function readPath :: "jsval \<Rightarrow> string \<Rightarrow> error + jsval"
  and read_fold :: "jsval \<Rightarrow> string list \<Rightarrow> error + jsval" where
  "readPath obj path =
     (if path = [] then Inl PathEmpty
      else read_fold obj (read_segments path))"
| "read_fold currentObj [] = Inr currentObj"
| "read_fold currentObj (key # rest) =
     (if key = [] then Inl InvalidSegment
      else if key = ''*'' then read_fold currentObj rest
      else if isArrayKey key \<or> isIndexKey key then
        (case currentObj of
           Arr xs \<Rightarrow>
             if cleanKey key = [] then read_fold Undefined rest
             else if isIndexKey (cleanKey key) then
               read_fold (arr_at xs (parse_int (cleanKey key))) rest
             else
               (case map_items (\<lambda>item. if isObject item then readPath item (cleanKey key)
                                        else Inr Undefined) xs of
                  Inl e \<Rightarrow> Inl e
                | Inr ys \<Rightarrow> read_fold (Arr ys) rest)
         | _ \<Rightarrow> read_fold Undefined rest)
      else
        read_fold (case currentObj of Obj ps \<Rightarrow> get_prop ps key | _ \<Rightarrow> Undefined) rest)"
  by pat_completeness auto


termination readPath
  apply (relation "measure (\<lambda>x. case x of
            Inl (obj, p) \<Rightarrow> 2 * path_weight p + 1
          | Inr (cur, segs) \<Rightarrow> 2 * sum_list (map seg_weight segs))")
  apply (simp_all add: seg_weight_pos read_segments_measure cleanKey_measure)
  done


definition readValue :: "jsval \<Rightarrow> jsval \<Rightarrow> error + jsval" where
  "readValue obj path = (case path of Str p \<Rightarrow> readPath obj p | _ \<Rightarrow> Inl PathNotString)"

section \<open>Writing\<close>

text \<open>
  \<^verbatim>\<open>writeValue(obj, path, value)\<close> changes \<^verbatim>\<open>obj\<close> in place and returns it; the model
  returns the changed value. \<open>write_fold currentObj segments value\<close> is the
  \<^verbatim>\<open>segments.reduce(...)\<close> from the accumulator \<^verbatim>\<open>currentObj\<close> on, and returns what
  \<^verbatim>\<open>currentObj\<close> has become when the loop is over: a step that goes down into a child
  puts the changed child back where the source reached it.

  \<open>getNextValue\<close> is the closure of that name: \<^verbatim>\<open>value ?? undefined\<close> at the last key
  (so \<^verbatim>\<open>null\<close> becomes \<^verbatim>\<open>undefined\<close>), otherwise the existing container or a new
  one, an array where the next key is an array key. It is called without an argument where
  the source does so, which is \<open>Undefined\<close> here.
\<close>

definition getNextValue :: "bool \<Rightarrow> bool \<Rightarrow> jsval \<Rightarrow> jsval \<Rightarrow> jsval" where
  "getNextValue isLastKey nextIsArray val existingValue =
     (if isLastKey then (if val = Null \<or> val = Undefined then Undefined else val)
      else if nextIsArray then (if isArray existingValue then existingValue else Arr [])
      else (if isObject existingValue then existingValue else Obj []))"

text \<open>
  \<^verbatim>\<open>currentObj[cleanKey] = newValue\<close> on an array, \<^verbatim>\<open>cleanKey\<close> matching \<^verbatim>\<open>\d+\<close>.
  The key is an array index when it is the canonical decimal form of a number below
  \<open>2^32 - 1\<close>: the slot is set, after holes up to it if the array is shorter. Any other key
  (\<^verbatim>\<open>"01"\<close>) names a property and leaves the elements as they are.
\<close>

definition is_array_index :: "string \<Rightarrow> bool" where
  "is_array_index k \<longleftrightarrow>
     list_all isDigit k \<and> (k = ''0'' \<or> (k \<noteq> [] \<and> hd k \<noteq> CHR ''0'')) \<and> nat_of_digits k < 4294967295"

definition arr_set :: "string \<Rightarrow> 'a \<Rightarrow> 'a option list \<Rightarrow> 'a option list" where
  "arr_set k v xs =
     (if is_array_index k then
        (let n = nat_of_digits k
         in if n < length xs then xs[n := Some v]
            else xs @ replicate (n - length xs) None @ [Some v])
      else xs)"

text \<open>\<^verbatim>\<open>currentObj.splice(cleanKey, 1, newValue)\<close>: one element is replaced at the position
  counted from the end, clamped to the start of the array; an empty array gets the value as
  its only element.\<close>

definition splice1 :: "int \<Rightarrow> 'a \<Rightarrow> 'a option list \<Rightarrow> 'a option list" where
  "splice1 i v xs =
     (let len = int (length xs);
          start = nat (if i < 0 then max (len + i) 0 else min i len);
          deleteCount = min 1 (length xs - start)
      in take start xs @ [Some v] @ drop (start + deleteCount) xs)"

text \<open>The element that \<^verbatim>\<open>currentObj.at(cleanKey)\<close> returned, after the rest of the loop
  has changed it.\<close>

definition arr_put :: "jsval option list \<Rightarrow> int \<Rightarrow> jsval \<Rightarrow> jsval option list" where
  "arr_put xs i v =
     (case rel_index (length xs) i of
        None \<Rightarrow> xs
      | Some j \<Rightarrow> (case xs ! j of None \<Rightarrow> xs | Some _ \<Rightarrow> xs[j := Some v]))"

text \<open>\<^verbatim>\<open>at\<close> also exists on a string, where it returns a one-character string.\<close>

definition str_at :: "string \<Rightarrow> int \<Rightarrow> jsval" where
  "str_at s i = (case rel_index (length s) i of None \<Rightarrow> Undefined | Some j \<Rightarrow> Str [s ! j])"

text \<open>\<^verbatim>\<open>!(isArrayKey(nextKey) || isIndexKey(nextKey) ? Array.isArray(existingValue)
  : isObject(existingValue))\<close>.\<close>

definition shouldUpdate :: "bool \<Rightarrow> jsval \<Rightarrow> bool" where
  "shouldUpdate nextIsArray existingValue \<longleftrightarrow>
     \<not> (if nextIsArray then isArray existingValue else isObject existingValue)"

definition nextIsArray :: "string list \<Rightarrow> bool" where
  "nextIsArray rest \<longleftrightarrow>
     (let nextKey = (case rest of [] \<Rightarrow> None | k # _ \<Rightarrow> Some k)
      in isArrayKeyOpt nextKey \<or> isIndexKeyOpt nextKey)"

text \<open>A plain key met on an array is written into every item with the same key, so here the
  recursion ends with the path getting shorter or, for the same path, the value getting
  smaller.\<close>

lemma write_segments_measure:
  "sum_list (map seg_weight (write_segments path)) \<le> path_weight path"
  using scan_weight [of write_match None path] by (simp add: write_segments_def)

lemma cleanKey_weight:
  "isArrayKey key \<or> isIndexKey key \<Longrightarrow> \<not> isIndexKey (cleanKey key) \<Longrightarrow>
     path_weight (cleanKey key) < seg_weight key + n"
proof -
  assume a: "isArrayKey key \<or> isIndexKey key" and b: "\<not> isIndexKey (cleanKey key)"
  have "isArrayKey key" using a b cleanKey_index [of key] by auto
  then show ?thesis using path_weight_clean [of key] by simp
qed

lemma item_size: "Some item \<in> set xs \<Longrightarrow> size item < size (Arr xs)"
proof -
  assume "Some item \<in> set xs"
  then have "size_option size (Some item) \<le> size_list (size_option size) xs"
    by (rule size_list_estimation') simp
  then show ?thesis by simp
qed

function writePath :: "jsval \<Rightarrow> string \<Rightarrow> jsval \<Rightarrow> error + jsval"
  and write_fold :: "jsval \<Rightarrow> string list \<Rightarrow> jsval \<Rightarrow> error + jsval" where
  "writePath obj path val =
     (case (if val = Undefined then readPath obj path else Inr Null) of
        Inl e \<Rightarrow> Inl e
      | Inr r \<Rightarrow>
          if val = Undefined \<and> r = Undefined then Inr obj
          else write_fold obj (write_segments path) val)"
| "write_fold currentObj [] val = Inr currentObj"
| "write_fold currentObj (key # rest) val =
     (let isLastKey = (rest = []); nextArr = nextIsArray rest
      in
      if isArrayKey key \<or> isIndexKey key then
        (if cleanKey key = [] then
           (case currentObj of
              Arr xs \<Rightarrow>
                (case write_fold (getNextValue isLastKey nextArr val Undefined) rest val of
                   Inl e \<Rightarrow> Inl e
                 | Inr c \<Rightarrow> Inr (Arr (xs @ [Some c])))
            | _ \<Rightarrow> Inl TypeError)
         else if isIndexKey (cleanKey key) then
           (case currentObj of
              Arr xs \<Rightarrow>
                (let i = parse_int (cleanKey key);
                     existingValue = arr_at xs i;
                     xs1 = (if shouldUpdate nextArr existingValue then
                              (let newValue = getNextValue isLastKey nextArr val existingValue
                               in if isNegIndex (cleanKey key) then splice1 i newValue xs
                                  else arr_set (cleanKey key) newValue xs)
                            else xs)
                 in case write_fold (arr_at xs1 i) rest val of
                      Inl e \<Rightarrow> Inl e
                    | Inr c \<Rightarrow> Inr (Arr (arr_put xs1 i c)))
            | Str s \<Rightarrow>
                (let i = parse_int (cleanKey key);
                     existingValue = str_at s i
                 in if shouldUpdate nextArr existingValue \<and> isNegIndex (cleanKey key)
                    then Inl TypeError
                    else (case write_fold (str_at s i) rest val of
                            Inl e \<Rightarrow> Inl e
                          | Inr c \<Rightarrow> Inr currentObj))
            | _ \<Rightarrow> Inl TypeError)
         else
           (case currentObj of
              Arr xs \<Rightarrow>
                (case map_items (\<lambda>item. writePath item (cleanKey key)
                                   (getNextValue isLastKey nextArr val Undefined)) xs of
                   Inl e \<Rightarrow> Inl e
                 | Inr ys \<Rightarrow> write_fold (Arr ys) rest val)
            | _ \<Rightarrow> Inl TypeError))
      else
        (case currentObj of
           Undefined \<Rightarrow> Inl TypeError
         | Null \<Rightarrow> Inl TypeError
         | Arr xs \<Rightarrow>
             (case map_items (\<lambda>item. writePath item key
                                (getNextValue isLastKey nextArr val Undefined)) xs of
                Inl e \<Rightarrow> Inl e
              | Inr ys \<Rightarrow> write_fold (Arr ys) rest val)
         | Obj ps \<Rightarrow>
             (let existingValue = get_prop ps key;
                  ps1 = (if shouldUpdate nextArr existingValue then
                           set_prop key (getNextValue isLastKey nextArr val existingValue) ps
                         else if isLastKey then set_prop key val ps
                         else ps)
              in case write_fold (get_prop ps1 key) rest val of
                   Inl e \<Rightarrow> Inl e
                 | Inr c \<Rightarrow> Inr (Obj (set_prop key c ps1)))
         | _ \<Rightarrow>
             (case write_fold Undefined rest val of
                Inl e \<Rightarrow> Inl e
              | Inr c \<Rightarrow> Inr currentObj)))"
  by pat_completeness auto
termination
  apply (relation "inv_image (less_than <*lex*> less_than <*lex*> less_than)
           (\<lambda>x. case x of
              Inl (obj, p, v) \<Rightarrow> (path_weight p, size obj, Suc 0)
            | Inr (cur, segs, v) \<Rightarrow> (sum_list (map seg_weight segs), size cur, 0))")
  apply (simp_all add: seg_weight_pos)
  subgoal by (intro wf_inv_image wf_lex_prod wf_less_than)
  subgoal for obj path using write_segments_measure [of path] by (simp add: le_less)
  subgoal for currentObj key using cleanKey_weight [of key] by simp
  subgoal for currentObj key rest x xa xs item
    using path_weight_seg [of key] item_size [of item xs] by auto
  done


definition writeValue :: "jsval \<Rightarrow> jsval \<Rightarrow> jsval \<Rightarrow> error + jsval" where
  "writeValue obj path val =
     (case path of Str p \<Rightarrow> writePath obj p val | _ \<Rightarrow> Inl PathNotString)"

section \<open>Properties of reading\<close>



lemma read_fold_Undefined:
  "\<forall>s \<in> set segs. s \<noteq> [] \<Longrightarrow> read_fold Undefined segs = Inr Undefined"
  by (induction segs) auto


lemma read_fold_step_Undefined:
  assumes "\<forall>s \<in> set rest. s \<noteq> []" and "key \<noteq> []"
  shows "\<not> isArrayKey key \<Longrightarrow> \<not> isIndexKey key \<Longrightarrow> key \<noteq> ''*'' \<Longrightarrow>
           (case cur of Obj ps \<Rightarrow> map_of ps key = None | _ \<Rightarrow> True) \<Longrightarrow>
           read_fold cur (key # rest) = Inr Undefined"
    and "isArrayKey key \<or> isIndexKey key \<Longrightarrow> \<not> isArray cur \<Longrightarrow>
           read_fold cur (key # rest) = Inr Undefined"
    and "isIndexKey key \<Longrightarrow> rel_index (length xs) (parse_int key) = None \<Longrightarrow>
           read_fold (Arr xs) (key # rest) = Inr Undefined"
proof -
  note u = read_fold_Undefined [OF assms(1)]
  show "\<not> isArrayKey key \<Longrightarrow> \<not> isIndexKey key \<Longrightarrow> key \<noteq> ''*'' \<Longrightarrow>
           (case cur of Obj ps \<Rightarrow> map_of ps key = None | _ \<Rightarrow> True) \<Longrightarrow>
           read_fold cur (key # rest) = Inr Undefined"
    using assms(2) u by (cases cur) (simp_all add: get_prop_def)
  show "isArrayKey key \<or> isIndexKey key \<Longrightarrow> \<not> isArray cur \<Longrightarrow>
           read_fold cur (key # rest) = Inr Undefined"
    using assms(2) u by (cases cur) (auto simp: isArray_def isIndexKey_def isArrayKey_def isDigit_def)
  show "isIndexKey key \<Longrightarrow> rel_index (length xs) (parse_int key) = None \<Longrightarrow>
           read_fold (Arr xs) (key # rest) = Inr Undefined"
    using assms(2) u cleanKey_index [of key]
    by (auto simp: arr_at_def isIndexKey_def isDigit_def)
qed

section \<open>The claims\<close>

text \<open>
  C3. The claim: in \<^verbatim>\<open>writeValue\<close>, when the last path segment is a numeric index into
  the current array, the element at that position is overwritten with the value, whatever
  the element was, a plain object included. The code does not do that: at an index segment
  the element is assigned only if \<^verbatim>\<open>shouldUpdate\<close> holds, and after the last segment
  \<^verbatim>\<open>shouldUpdate\<close> is "the element is not a plain object". The branch for a plain key has
  \<^verbatim>\<open>else if (isLastKey) currentObj[key] = value\<close>; the branch for an index has no such
  case. The theorem runs the code where the element is a plain object: the array is left
  as it was and the value 5 is lost, while the same write through a plain key stores it.
\<close>

theorem index_last_keeps_object:
  "writeValue (Arr [Some (Obj [(''x'', Num 1)])]) (Str ''0'') (Num 5)
     = Inr (Arr [Some (Obj [(''x'', Num 1)])])
   \<and> writeValue (Obj [(''a'', Obj [(''x'', Num 1)])]) (Str ''a'') (Num 5)
     = Inr (Obj [(''a'', Num 5)])"
  by code_simp



text \<open>
  C9. The claim: for every value other than \<^verbatim>\<open>undefined\<close>, \<^verbatim>\<open>writeValue(root, path, v)\<close>
  whose first path segment is a numeric index or the append operator \<^verbatim>\<open>[]\<close>, on a root
  that is not an array, throws a TypeError. It fails where the root is a string and the
  segment an index without a sign: a string has \<^verbatim>\<open>at\<close> too, and the assignment to a
  property of a primitive is ignored, so the call returns the root.
\<close>

theorem write_index_on_string_returns:
  "writeValue (Str ''abc'') (Str ''0'') (Num 1) = Inr (Str ''abc'')"
  by code_simp

text \<open>
  C9, amended. For every value other than \<^verbatim>\<open>undefined\<close>, \<^verbatim>\<open>writeValue(root, path, v)\<close>
  throws a TypeError when the first path segment is the append operator \<^verbatim>\<open>[]\<close> and the
  root is not an array, and when the first path segment is a numeric index and the root is
  neither an array nor a string.
\<close>

theorem write_index_on_non_array:
  assumes "val \<noteq> Undefined"
    and "write_segments p = key # rest"
    and "key = ''[]'' \<or> (isIndexKey key \<and> (\<forall>s. root \<noteq> Str s))"
    and "\<not> isArray root"
  shows "writeValue root (Str p) val = Inl TypeError"
proof -
  have w: "writeValue root (Str p) val = write_fold root (key # rest) val"
    using assms(1,2) by (simp add: writeValue_def)
  from assms(3) show ?thesis
  proof
    assume "key = ''[]''"
    then have "isArrayKey key" "cleanKey key = []"
      by (simp_all add: isArrayKey_def cleanKey_def)
    with assms(4) w show ?thesis
      by (cases root) (simp_all add: isArray_def Let_def)
  next
    assume a: "isIndexKey key \<and> (\<forall>s. root \<noteq> Str s)"
    then have "cleanKey key = key" "key \<noteq> []"
      by (auto simp: cleanKey_index isIndexKey_def)
    with a assms(4) w show ?thesis
      by (cases root) (simp_all add: isArray_def Let_def)
  qed
qed

theorem write_index_on_non_array_witness:
  "writeValue (Obj []) (Str ''0'') (Num 1) = Inl TypeError
   \<and> writeValue (Obj []) (Str ''[]'') (Num 1) = Inl TypeError
   \<and> writeValue (Str ''abc'') (Str ''[]'') (Num 1) = Inl TypeError"
proof -
  have s: "write_segments ''0'' = [''0'']" "write_segments ''[]'' = [''[]'']" by code_simp+
  have i: "isIndexKey ''0''" by code_simp
  show ?thesis
    using write_index_on_non_array [of "Num 1" "''0''" "''0''" "[]" "Obj []"]
      write_index_on_non_array [of "Num 1" "''[]''" "''[]''" "[]" "Obj []"]
      write_index_on_non_array [of "Num 1" "''[]''" "''[]''" "[]" "Str ''abc''"]
      s i
    by (simp add: isArray_def)
qed

section \<open>Tokenization of plain paths\<close>

text \<open>A plain path has key characters and dots only. Both patterns find the same segments
  in it: the non-empty pieces between the dots.\<close>

definition plain_path :: "string \<Rightarrow> bool" where
  "plain_path p \<longleftrightarrow> list_all (\<lambda>c. isKeyChar c \<or> c = CHR ''.'') p"

lemma isKeyChar_simps [simp]:
  "\<not> isKeyChar CHR ''.''" "\<not> isKeyChar CHR ''[''" "\<not> isKeyChar CHR '']''" "\<not> isKeyChar CHR ''*''"
  "\<not> isKeyChar CHR '':''" "\<not> isKeyChar CHR '',''"
  by (simp_all add: isKeyChar_def)

lemma split_on_takeWhile:
  "split_on sep s = takeWhile (\<lambda>x. x \<noteq> sep) s #
     (case dropWhile (\<lambda>x. x \<noteq> sep) s of [] \<Rightarrow> [] | _ # r \<Rightarrow> split_on sep r)"
  by (induction s) (auto split: list.splits)

lemma plain_takeWhile:
  "plain_path s \<Longrightarrow> takeWhile isKeyChar s = takeWhile (\<lambda>x. x \<noteq> CHR ''.'') s"
  by (induction s) (auto simp: plain_path_def)

lemma plain_dropWhile:
  "plain_path s \<Longrightarrow> dropWhile isKeyChar s = dropWhile (\<lambda>x. x \<noteq> CHR ''.'') s"
  by (induction s) (auto simp: plain_path_def)

lemma plain_dropWhile_plain: "plain_path s \<Longrightarrow> plain_path (dropWhile P s)"
  by (induction s) (auto simp: plain_path_def)

lemma plain_at_end: "plain_path s \<Longrightarrow> at_end (dropWhile isKeyChar s)"
  by (induction s) (auto simp: plain_path_def at_end_def)

lemma key_len_plain:
  "plain_path (c # cs) \<Longrightarrow> isKeyChar c \<Longrightarrow>
     key_len (c # cs) = Some (Suc (length (takeWhile isKeyChar cs)))"
  using plain_at_end [of "c # cs"] by (simp add: key_len_def)

lemma key_len_dot: "key_len (CHR ''.'' # cs) = None"
  by (simp add: key_len_def)

lemma bracket_len_not: "c \<noteq> CHR ''['' \<Longrightarrow> bracket_len ok (c # cs) = None"
  by (simp add: bracket_len_def)

lemma read_match_plain:
  "read_match prev (CHR ''.'' # cs) = None"
  "plain_path (c # cs) \<Longrightarrow> isKeyChar c \<Longrightarrow> at_start prev \<Longrightarrow>
     read_match prev (c # cs) = Some (Suc (length (takeWhile isKeyChar cs)))"
proof -
  show "read_match prev (CHR ''.'' # cs) = None"
    by (simp add: read_match_def key_len_dot bracket_len_not)
  assume a: "plain_path (c # cs)" "isKeyChar c" "at_start prev"
  then have "c \<noteq> CHR ''*''" "c \<noteq> CHR ''[''" by auto
  with a show "read_match prev (c # cs) = Some (Suc (length (takeWhile isKeyChar cs)))"
    by (simp add: read_match_def key_len_plain bracket_len_not)
qed

lemma write_match_plain:
  "write_match prev (CHR ''.'' # cs) = None"
  "plain_path (c # cs) \<Longrightarrow> isKeyChar c \<Longrightarrow>
     write_match prev (c # cs) = Some (Suc (length (takeWhile isKeyChar cs)))"
proof -
  show "write_match prev (CHR ''.'' # cs) = None"
    by (simp add: write_match_def key_len_dot bracket_len_not)
  assume a: "plain_path (c # cs)" "isKeyChar c"
  then have "c \<noteq> CHR ''[''" by auto
  with a show "write_match prev (c # cs) = Some (Suc (length (takeWhile isKeyChar cs)))"
    by (simp add: write_match_def key_len_plain bracket_len_not)
qed

lemma scan_plain:
  "(\<forall>prev cs. m prev (CHR ''.'' # cs) = None) \<Longrightarrow>
   (\<forall>prev c cs. plain_path (c # cs) \<longrightarrow> isKeyChar c \<longrightarrow> at_start prev \<longrightarrow>
                m prev (c # cs) = Some (Suc (length (takeWhile isKeyChar cs)))) \<Longrightarrow>
   plain_path p \<Longrightarrow> p = [] \<or> hd p = CHR ''.'' \<or> at_start prev \<Longrightarrow>
     scan m prev p = filter (\<lambda>s. s \<noteq> []) (split_on CHR ''.'' p)"
proof (induction m prev p rule: scan.induct)
  case (1 m prev)
  show ?case by simp
next
  case (2 m prev c cs)
  note dot = "2.prems"(1) and key = "2.prems"(2)
  have pcs: "plain_path cs" using "2.prems"(3) by (simp add: plain_path_def)
  show ?case
  proof (cases "c = CHR ''.''")
    case True
    then have n: "m prev (c # cs) = None" using dot by simp
    have "scan m (Some c) cs = filter (\<lambda>s. s \<noteq> []) (split_on CHR ''.'' cs)"
      using "2.IH"(1) [OF n dot key pcs] True by (simp add: at_start_def)
    with n show ?thesis using True by simp
  next
    case False
    then have kc: "isKeyChar c" using "2.prems"(3) by (simp add: plain_path_def)
    from False "2.prems"(4) have st: "at_start prev" by simp
    let ?n = "Suc (length (takeWhile isKeyChar cs))"
    let ?r = "dropWhile isKeyChar cs"
    have m: "m prev (c # cs) = Some ?n" using key "2.prems"(3) kc st by blast
    have tk: "take (?n - 1) cs = takeWhile isKeyChar cs"
      using takeWhile_eq_take [of isKeyChar cs] by simp
    have dr: "drop (?n - 1) cs = ?r"
      using dropWhile_eq_drop [of isKeyChar cs] by simp
    have pr: "plain_path ?r" using pcs by (rule plain_dropWhile_plain)
    have hr: "?r = [] \<or> hd ?r = CHR ''.''"
      using plain_at_end [OF pcs] by (cases ?r) (simp_all add: at_end_def)
    have ih: "scan m (Some (last (c # take (?n - 1) cs))) (drop (?n - 1) cs)
               = filter (\<lambda>s. s \<noteq> []) (split_on CHR ''.'' (drop (?n - 1) cs))"
    proof (rule "2.IH"(2) [OF m dot key])
      show "plain_path (drop (?n - 1) cs)" using pr by (simp only: dr)
      show "drop (?n - 1) cs = [] \<or> hd (drop (?n - 1) cs) = CHR ''.'' \<or>
              at_start (Some (last (c # take (?n - 1) cs)))"
        using hr by (simp only: dr) blast
    qed
    have sp: "filter (\<lambda>s. s \<noteq> []) (split_on CHR ''.'' (c # cs))
               = (c # takeWhile isKeyChar cs) # filter (\<lambda>s. s \<noteq> []) (split_on CHR ''.'' ?r)"
    proof -
      define r where "r = dropWhile isKeyChar cs"
      define k where "k = c # takeWhile isKeyChar cs"
      have 1: "split_on CHR ''.'' (c # cs) = k #
                 (case r of [] \<Rightarrow> [] | _ # r' \<Rightarrow> split_on CHR ''.'' r')"
        using split_on_takeWhile [of "CHR ''.''" "c # cs"] False
          plain_takeWhile [OF pcs] plain_dropWhile [OF pcs] by (simp add: r_def k_def)
      have "k \<noteq> []" by (simp add: k_def)
      have "filter (\<lambda>s. s \<noteq> []) (split_on CHR ''.'' (c # cs))
              = k # filter (\<lambda>s. s \<noteq> []) (split_on CHR ''.'' r)"
      proof (cases r)
        case Nil
        with \<open>k \<noteq> []\<close> show ?thesis unfolding 1 by simp
      next
        case (Cons d r')
        have "r = [] \<or> hd r = CHR ''.''" using hr by (simp only: r_def)
        with Cons have "d = CHR ''.''" by simp
        with Cons \<open>k \<noteq> []\<close> show ?thesis unfolding 1 by simp
      qed
      then show ?thesis by (simp add: r_def k_def)
    qed
    have "scan m prev (c # cs) = (c # take (?n - 1) cs) #
            scan m (Some (last (c # take (?n - 1) cs))) (drop (?n - 1) cs)"
      using m by simp
    also have "\<dots> = (c # takeWhile isKeyChar cs) # filter (\<lambda>s. s \<noteq> []) (split_on CHR ''.'' ?r)"
      by (simp only: ih) (simp only: tk dr)
    finally show ?thesis using sp by simp
  qed
qed

lemma read_segments_plain:
  "plain_path p \<Longrightarrow> read_segments p = filter (\<lambda>s. s \<noteq> []) (split_on CHR ''.'' p)"
  unfolding read_segments_def
  by (rule scan_plain) (simp_all add: read_match_plain at_start_def)

lemma write_segments_plain:
  "plain_path p \<Longrightarrow> write_segments p = filter (\<lambda>s. s \<noteq> []) (split_on CHR ''.'' p)"
  unfolding write_segments_def
  by (rule scan_plain) (simp_all add: write_match_plain at_start_def)

lemma split_on_nonempty: "split_on sep s \<noteq> []"
  by (induction s) (auto split: list.splits)

lemma split_on_append:
  "split_on sep (xs @ sep # ys) = split_on sep xs @ split_on sep ys"
proof (induction xs)
  case Nil
  show ?case by simp
next
  case (Cons c xs)
  then show ?case using split_on_nonempty [of sep xs]
    by (cases "split_on sep xs") auto
qed

lemma split_on_none: "sep \<notin> set s \<Longrightarrow> split_on sep s = [s]"
  by (induction s) auto

lemma plain_path_append: "plain_path (xs @ ys) \<longleftrightarrow> plain_path xs \<and> plain_path ys"
  by (simp add: plain_path_def)

lemma plain_segments_skip:
  "filter (\<lambda>s. s \<noteq> []) (split_on CHR ''.'' (xs @ ''..'' @ ys))
     = filter (\<lambda>s. s \<noteq> []) (split_on CHR ''.'' (xs @ ''.'' @ ys))"
  by (simp add: split_on_append)

text \<open>
  C5. The claim: the read side and the write side both reject a path with an empty segment
  between two consecutive dots (\<^verbatim>\<open>"a..b"\<close>) by raising an error. The write side has no
  such check: its pattern finds the segments \<^verbatim>\<open>a\<close> and \<^verbatim>\<open>b\<close> and the write goes through.
\<close>

theorem write_empty_segment_accepted:
  "writeValue (Obj []) (Str ''a..b'') (Num 1) = Inr (Obj [(''a'', Obj [(''b'', Num 1)])])"
  by code_simp

text \<open>
  C5, amended. The write side does not reject a path with an empty segment between two
  consecutive dots: the empty segment is skipped, and for a path of plain keys
  \<^verbatim>\<open>writeValue\<close> does with \<^verbatim>\<open>"a..b"\<close> what it does with \<^verbatim>\<open>"a.b"\<close>. (The read side is
  left out: \<^verbatim>\<open>readValue\<close> has the check \<^verbatim>\<open>if (key === "") throw\<close>, which its pattern
  never lets fire.)
\<close>

theorem write_skips_empty_segment:
  assumes "plain_path xs" and "plain_path ys"
  shows "writeValue obj (Str (xs @ ''..'' @ ys)) val = writeValue obj (Str (xs @ ''.'' @ ys)) val"
proof -
  have p: "plain_path (xs @ ''..'' @ ys)" "plain_path (xs @ ''.'' @ ys)"
    using assms by (simp_all add: plain_path_def)
  have w: "write_segments (xs @ ''..'' @ ys) = write_segments (xs @ ''.'' @ ys)"
    by (simp only: write_segments_plain [OF p(1)] write_segments_plain [OF p(2)] plain_segments_skip)
  have r: "read_segments (xs @ ''..'' @ ys) = read_segments (xs @ ''.'' @ ys)"
    by (simp only: read_segments_plain [OF p(1)] read_segments_plain [OF p(2)] plain_segments_skip)
  have "readPath obj (xs @ ''..'' @ ys) = readPath obj (xs @ ''.'' @ ys)"
    using r by simp
  with w show ?thesis by (simp add: writeValue_def split: sum.splits)
qed

theorem write_skips_empty_segment_witness:
  "writeValue (Obj []) (Str ''a..b'') (Num 1) = writeValue (Obj []) (Str ''a.b'') (Num 1)"
proof -
  have "plain_path ''a''" "plain_path ''b''" by (simp_all add: plain_path_def isKeyChar_def)
  then show ?thesis
    using write_skips_empty_segment [of "''a''" "''b''" "Obj []" "Num 1"] by simp
qed

section \<open>Writing into a fresh container\<close>

text \<open>A plain key is a non-empty run of key characters that is not an index; a path
  segment of the round trip is a plain key or an array index in canonical form.
  \<open>dot_join\<close> joins segments with dots.\<close>

definition plain_key :: "string \<Rightarrow> bool" where
  "plain_key k \<longleftrightarrow> k \<noteq> [] \<and> list_all isKeyChar k \<and> \<not> isIndexKey k"

definition path_seg :: "string \<Rightarrow> bool" where
  "path_seg k \<longleftrightarrow> plain_key k \<or> is_array_index k"

fun dot_join :: "string list \<Rightarrow> string" where
  "dot_join [] = []"
| "dot_join [s] = s"
| "dot_join (s # t # ss) = s @ ''.'' @ dot_join (t # ss)"

lemma isDigit_isKeyChar: "isDigit c \<Longrightarrow> isKeyChar c"
  by (auto simp: isDigit_def isKeyChar_def)

lemma keychars_not_special:
  assumes "list_all isKeyChar k"
  shows "CHR ''.'' \<notin> set k" "CHR ''['' \<notin> set k" "CHR ''*'' \<notin> set k"
  using assms by (auto simp: list_all_iff)

lemma plain_key_facts:
  assumes "plain_key k"
  shows "k \<noteq> []" "\<not> isIndexKey k" "\<not> isArrayKey k" "k \<noteq> ''*''" "list_all isKeyChar k"
proof -
  from assms show k: "k \<noteq> []" and "\<not> isIndexKey k" and kc: "list_all isKeyChar k"
    by (simp_all add: plain_key_def)
  from k kc show "\<not> isArrayKey k" by (cases k) (auto simp: isArrayKey_def)
  from kc show "k \<noteq> ''*''" by auto
qed

lemma array_index_facts:
  assumes "is_array_index k"
  shows "k \<noteq> []" "isIndexKey k" "\<not> isArrayKey k" "k \<noteq> ''*''" "list_all isKeyChar k"
    "cleanKey k = k" "\<not> isNegIndex k" "parse_int k = int (nat_of_digits k)"
proof -
  from assms have d: "list_all isDigit k" and k: "k \<noteq> []"
    by (auto simp: is_array_index_def)
  show "k \<noteq> []" by (rule k)
  from d k have h: "isDigit (hd k)" by (cases k) simp_all
  then have m: "hd k \<noteq> CHR ''-''" "hd k \<noteq> CHR ''[''" by (auto simp: isDigit_def)
  from d k m show i: "isIndexKey k" by (cases k) (simp_all add: isIndexKey_def)
  from k m show "\<not> isArrayKey k" by (cases k) (simp_all add: isArrayKey_def)
  from d show kc: "list_all isKeyChar k" by (auto simp: list_all_iff isDigit_isKeyChar)
  then show "k \<noteq> ''*''" by auto
  from i show "cleanKey k = k" by (rule cleanKey_index)
  from k m show "\<not> isNegIndex k" by (cases k) (simp_all add: isNegIndex_def)
  from k m show "parse_int k = int (nat_of_digits k)" by (cases k) (simp_all add: parse_int_def)
qed

lemma path_seg_facts:
  assumes "path_seg k"
  shows "k \<noteq> []" "\<not> isArrayKey k" "k \<noteq> ''*''" "list_all isKeyChar k"
    "isIndexKey k \<longleftrightarrow> is_array_index k"
  using assms plain_key_facts [of k] array_index_facts [of k]
  by (auto simp: path_seg_def)

lemma dot_join_tokens:
  "segs \<noteq> [] \<Longrightarrow> \<forall>k \<in> set segs. k \<noteq> [] \<and> list_all isKeyChar k \<Longrightarrow>
     plain_path (dot_join segs) \<and> dot_join segs \<noteq> [] \<and>
     filter (\<lambda>s. s \<noteq> []) (split_on CHR ''.'' (dot_join segs)) = segs"
proof (induction segs rule: dot_join.induct)
  case 1
  then show ?case by simp
next
  case (2 s)
  then have "CHR ''.'' \<notin> set s" by (simp add: keychars_not_special)
  with 2 show ?case
    by (auto simp: split_on_none plain_path_def list_all_iff)
next
  case (3 s t ss)
  then have d: "CHR ''.'' \<notin> set s" and s: "s \<noteq> []" and ps: "plain_path s"
    by (auto simp: keychars_not_special plain_path_def list_all_iff)
  from 3 have ih: "plain_path (dot_join (t # ss))"
      "filter (\<lambda>s. s \<noteq> []) (split_on CHR ''.'' (dot_join (t # ss))) = t # ss"
    by simp_all
  have "split_on CHR ''.'' (s @ CHR ''.'' # dot_join (t # ss))
          = [s] @ split_on CHR ''.'' (dot_join (t # ss))"
    by (simp only: split_on_append split_on_none [OF d])
  with s ih ps show ?case by (simp add: plain_path_def)
qed

lemma dot_join_segments:
  assumes "segs \<noteq> []" and "\<forall>k \<in> set segs. path_seg k"
  shows "read_segments (dot_join segs) = segs" "write_segments (dot_join segs) = segs"
    "dot_join segs \<noteq> []"
proof -
  have "\<forall>k \<in> set segs. k \<noteq> [] \<and> list_all isKeyChar k"
    using assms(2) path_seg_facts by blast
  from dot_join_tokens [OF assms(1) this]
  show "read_segments (dot_join segs) = segs" "write_segments (dot_join segs) = segs"
    "dot_join segs \<noteq> []"
    by (simp_all add: read_segments_plain write_segments_plain)
qed


text \<open>\<open>stored v\<close> is \<^verbatim>\<open>value ?? undefined\<close>, what a new slot receives at the last key;
  \<open>fresh k\<close> is the empty container made for a slot that the segment \<open>k\<close> goes into.\<close>

definition stored :: "jsval \<Rightarrow> jsval" where
  "stored v = (if v = Null \<or> v = Undefined then Undefined else v)"

definition fresh :: "string \<Rightarrow> jsval" where
  "fresh k = (if isIndexKey k then Arr [] else Obj [])"

lemma getNextValue_fresh:
  "getNextValue True b v Undefined = stored v"
  "path_seg k2 \<Longrightarrow> getNextValue False (nextIsArray (k2 # r)) v Undefined = fresh k2"
  using path_seg_facts(2) [of k2]
  by (auto simp: getNextValue_def stored_def fresh_def nextIsArray_def isArrayKeyOpt_def
      isIndexKeyOpt_def isArray_def isObject_def)

lemma write_key_fresh:
  assumes "plain_key k"
  shows "write_fold (Obj []) (k # rest) v =
     (case write_fold (getNextValue (rest = []) (nextIsArray rest) v Undefined) rest v of
        Inl e \<Rightarrow> Inl e | Inr c \<Rightarrow> Inr (Obj [(k, c)]))"
  using plain_key_facts [OF assms]
  by (simp add: Let_def get_prop_def set_prop_def shouldUpdate_def isArray_def isObject_def
      cong: sum.case_cong)

lemma arr_set_fresh:
  assumes "is_array_index k"
  shows "arr_set k c [] = replicate (nat_of_digits k) None @ [Some c]"
  using assms by (simp add: arr_set_def)

lemma arr_at_fresh:
  "arr_at (replicate n None @ [Some c]) (int n) = c"
  by (simp add: arr_at_def rel_index_def nth_append)

lemma arr_at_empty: "arr_at [] i = Undefined"
  by (simp add: arr_at_def rel_index_def)

lemma arr_put_fresh:
  "arr_put (replicate n None @ [Some c]) (int n) c' = replicate n None @ [Some c']"
  by (simp add: arr_put_def rel_index_def nth_append list_update_append)

lemma write_index_fresh:
  assumes "is_array_index k"
  shows "write_fold (Arr []) (k # rest) v =
     (case write_fold (getNextValue (rest = []) (nextIsArray rest) v Undefined) rest v of
        Inl e \<Rightarrow> Inl e | Inr c \<Rightarrow> Inr (Arr (replicate (nat_of_digits k) None @ [Some c])))"
  using array_index_facts [OF assms]
  by (simp add: Let_def shouldUpdate_def isArray_def isObject_def arr_at_fresh arr_put_fresh
      arr_at_empty arr_set_fresh [OF assms] cong: sum.case_cong)

lemma read_key_fresh:
  assumes "plain_key k"
  shows "read_fold (Obj [(k, c)]) (k # rest) = read_fold c rest"
  using plain_key_facts [OF assms] by (simp add: get_prop_def)

lemma read_index_fresh:
  assumes "is_array_index k"
  shows "read_fold (Arr (replicate (nat_of_digits k) None @ [Some c])) (k # rest) = read_fold c rest"
  using array_index_facts [OF assms] by (simp add: arr_at_fresh)

lemma fresh_write:
  "segs \<noteq> [] \<Longrightarrow> \<forall>k \<in> set segs. path_seg k \<Longrightarrow>
     \<exists>cur. write_fold (fresh (hd segs)) segs v = Inr cur \<and> read_fold cur segs = Inr (stored v)"
proof (induction segs)
  case Nil
  then show ?case by simp
next
  case (Cons k rest)
  define c where "c = getNextValue (rest = []) (nextIsArray rest) v Undefined"
  have "\<exists>c'. write_fold c rest v = Inr c' \<and> read_fold c' rest = Inr (stored v)"
  proof (cases rest)
    case Nil
    then show ?thesis by (simp add: c_def getNextValue_fresh)
  next
    case (Cons k2 r)
    with Cons.prems have "path_seg k2" by simp
    then have "c = fresh (hd rest)" using Cons by (simp add: c_def getNextValue_fresh)
    with Cons.IH Cons.prems Cons show ?thesis by simp
  qed
  then obtain c' where c': "write_fold c rest v = Inr c'" "read_fold c' rest = Inr (stored v)"
    by blast
  from Cons.prems have "path_seg k" by simp
  then show ?case
  proof (unfold path_seg_def, elim disjE)
    assume pk: "plain_key k"
    then have "fresh k = Obj []" by (simp add: fresh_def plain_key_facts)
    with c' pk show ?thesis
      by (simp add: write_key_fresh read_key_fresh c_def [symmetric]
          del: write_fold.simps read_fold.simps)
  next
    assume ai: "is_array_index k"
    then have "fresh k = Arr []" by (simp add: fresh_def array_index_facts)
    with c' ai show ?thesis
      by (simp add: write_index_fresh read_index_fresh c_def [symmetric]
          del: write_fold.simps read_fold.simps)
  qed
qed




lemma plain_key_path_seg: "plain_key k \<Longrightarrow> path_seg k"
  by (simp add: path_seg_def)

lemma fresh_round_trip:
  assumes "segs \<noteq> []" and "\<forall>k \<in> set segs. path_seg k" and "plain_key (hd segs)"
  shows "\<exists>r. writeValue (Obj []) (Str (dot_join segs)) v = Inr r \<and>
              readValue r (Str (dot_join segs)) = Inr (stored v)"
proof -
  note t = dot_join_segments [OF assms(1,2)]
  have f: "fresh (hd segs) = Obj []"
    using assms(3) by (simp add: fresh_def plain_key_facts)
  show ?thesis
  proof (cases "v = Undefined")
    case True
    obtain k rest where segs: "segs = k # rest" using assms(1) by (cases segs) auto
    have ne: "\<forall>s \<in> set rest. s \<noteq> []" using assms(2) segs path_seg_facts(1) by auto
    have "read_fold (Obj []) (k # rest) = Inr Undefined"
      using read_fold_step_Undefined(1) [OF ne, of k "Obj []"] assms(3) segs
      by (simp add: plain_key_facts)
    then have "readPath (Obj []) (dot_join segs) = Inr Undefined"
      using t segs by simp
    with True show ?thesis by (simp add: writeValue_def readValue_def stored_def)
  next
    case False
    from fresh_write [OF assms(1,2), of v] f obtain cur where
      "write_fold (Obj []) segs v = Inr cur" "read_fold cur segs = Inr (stored v)" by auto
    with False t show ?thesis by (simp add: writeValue_def readValue_def)
  qed
qed

text \<open>
  C2. The claim: for every path of plain-key segments and non-negative index segments
  joined by dots and every JSON-compatible value \<open>v\<close>,
  \<^verbatim>\<open>readValue(writeValue({}, path, v), path)\<close> is deep-equal to \<open>v\<close>. It fails in three
  ways: a path that starts with an index makes \<^verbatim>\<open>writeValue\<close> call \<^verbatim>\<open>at\<close> on the
  object \<^verbatim>\<open>{}\<close>; the value \<^verbatim>\<open>null\<close> is stored as \<^verbatim>\<open>undefined\<close>
  (\<^verbatim>\<open>value ?? undefined\<close>); and an index with a leading zero is assigned as a property
  but read as an element.
\<close>

theorem round_trip_fails:
  "writeValue (Obj []) (Str ''0'') (Num 1) = Inl TypeError
   \<and> writeValue (Obj []) (Str ''a'') Null = Inr (Obj [(''a'', Undefined)])
   \<and> readValue (Obj [(''a'', Undefined)]) (Str ''a'') = Inr Undefined
   \<and> writeValue (Obj []) (Str ''a.01'') (Num 1) = Inr (Obj [(''a'', Arr [])])
   \<and> readValue (Obj [(''a'', Arr [])]) (Str ''a.01'') = Inr Undefined"
  by code_simp

text \<open>
  C2, amended. For every path of plain-key segments (other than \<^verbatim>\<open>__proto__\<close>, which
  the model of objects does not cover) and array indices in canonical decimal form (no
  sign, no leading zero, below \<open>2^32 - 1\<close>), joined by dots, whose first segment is a plain
  key, and every value \<open>v\<close> other than \<^verbatim>\<open>null\<close>,
  \<^verbatim>\<open>readValue(writeValue({}, path, v), path)\<close> returns \<open>v\<close>.
\<close>

theorem round_trip:
  assumes "segs \<noteq> []"
    and "\<forall>k \<in> set segs. path_seg k \<and> k \<noteq> ''__proto__''"
    and "plain_key (hd segs)"
    and "v \<noteq> Null"
  shows "\<exists>r. writeValue (Obj []) (Str (dot_join segs)) v = Inr r \<and>
              readValue r (Str (dot_join segs)) = Inr v"
proof -
  have "\<forall>k \<in> set segs. path_seg k" using assms(2) by simp
  from fresh_round_trip [OF assms(1) this assms(3), of v] assms(4)
  show ?thesis by (simp add: stored_def)
qed

theorem round_trip_witness:
  "\<exists>r. writeValue (Obj []) (Str ''a.2.b'') (Arr [Some (Num 1), Some Null]) = Inr r \<and>
        readValue r (Str ''a.2.b'') = Inr (Arr [Some (Num 1), Some Null])"
proof -
  have k: "plain_key ''a''" "plain_key ''b''" "is_array_index ''2''"
    by (simp_all add: plain_key_def is_array_index_def isKeyChar_def isIndexKey_def isDigit_def
        nat_of_digits_def digit_val_def)
  then have "\<forall>k \<in> set [''a'', ''2'', ''b'']. path_seg k \<and> k \<noteq> ''__proto__''"
    by (simp add: path_seg_def)
  from round_trip [OF _ this, of "Arr [Some (Num 1), Some Null]"] k
  show ?thesis by simp
qed



section \<open>Indices written as strings\<close>

text \<open>\<^verbatim>\<open>String(i)\<close> for an integer \<open>i\<close>: the decimal digits, after a minus sign if \<open>i\<close> is
  negative (the runtime changes to exponent notation from \<open>10^21\<close> on, far beyond the
  length of an array).\<close>

definition digit_char :: "nat \<Rightarrow> char" where
  "digit_char d = ''0123456789'' ! d"

fun digits_of_nat :: "nat \<Rightarrow> string" where
  "digits_of_nat n =
     (if n < 10 then [digit_char n] else digits_of_nat (n div 10) @ [digit_char (n mod 10)])"

definition js_string :: "int \<Rightarrow> string" where
  "js_string i = (if i < 0 then CHR ''-'' # digits_of_nat (nat (- i)) else digits_of_nat (nat i))"

declare digits_of_nat.simps [simp del]

lemma digit_char_cases:
  assumes "d < 10"
  shows "isDigit (digit_char d)" "digit_val (digit_char d) = d"
proof -
  from assms have "d \<in> {0, 1, 2, 3, 4, 5, 6, 7, 8, 9}" by auto
  then show "isDigit (digit_char d)" "digit_val (digit_char d) = d"
    by (auto simp: digit_char_def isDigit_def digit_val_def)
qed

lemma digits_of_nat_digits: "list_all isDigit (digits_of_nat n) \<and> digits_of_nat n \<noteq> []"
proof (induction n rule: digits_of_nat.induct)
  case (1 n)
  show ?case
  proof (cases "n < 10")
    case True
    then show ?thesis by (simp add: digits_of_nat.simps [of n] digit_char_cases)
  next
    case False
    with 1 show ?thesis by (simp add: digits_of_nat.simps [of n] digit_char_cases)
  qed
qed

lemma nat_of_digits_snoc: "nat_of_digits (ds @ [c]) = 10 * nat_of_digits ds + digit_val c"
  by (simp add: nat_of_digits_def)

lemma nat_of_digits_of_nat: "nat_of_digits (digits_of_nat n) = n"
proof (induction n rule: digits_of_nat.induct)
  case (1 n)
  show ?case
  proof (cases "n < 10")
    case True
    then show ?thesis
      by (simp add: digits_of_nat.simps [of n] nat_of_digits_def digit_char_cases)
  next
    case False
    with 1 show ?thesis
      by (simp add: digits_of_nat.simps [of n] nat_of_digits_snoc digit_char_cases)
  qed
qed

lemma js_string_index:
  "isIndexKey (js_string i)" "parse_int (js_string i) = i" "js_string i \<noteq> []"
  "list_all isKeyChar (js_string i)"
proof -
  have d: "\<And>n. list_all isDigit (digits_of_nat n)" "\<And>n. digits_of_nat n \<noteq> []"
    using digits_of_nat_digits by simp_all
  have h: "\<And>n. hd (digits_of_nat n) \<noteq> CHR ''-''"
  proof -
    fix n
    have "isDigit (hd (digits_of_nat n))" using d [of n] by (cases "digits_of_nat n") simp_all
    then show "hd (digits_of_nat n) \<noteq> CHR ''-''" by (auto simp: isDigit_def)
  qed
  show "isIndexKey (js_string i)"
    using d [of "nat i"] d [of "nat (- i)"] h [of "nat i"]
    by (cases "digits_of_nat (nat i)") (auto simp: js_string_def isIndexKey_def)
  show "parse_int (js_string i) = i"
  proof (cases "i < 0")
    case True
    then show ?thesis by (simp add: js_string_def parse_int_def nat_of_digits_of_nat)
  next
    case False
    obtain a ds where e: "digits_of_nat (nat i) = a # ds"
      using d(2) [of "nat i"] by (cases "digits_of_nat (nat i)") auto
    with h [of "nat i"] have "a \<noteq> CHR ''-''" by simp
    then have "parse_int (a # ds) = int (nat_of_digits (a # ds))" by (simp add: parse_int_def)
    also have "\<dots> = int (nat i)" by (simp only: e [symmetric] nat_of_digits_of_nat)
    finally show ?thesis using False e by (simp add: js_string_def)
  qed
  show "js_string i \<noteq> []" using d by (simp add: js_string_def)
  have "\<And>n. list_all isKeyChar (digits_of_nat n)"
    using d(1) by (auto simp: list_all_iff isDigit_isKeyChar)
  then show "list_all isKeyChar (js_string i)"
    by (simp add: js_string_def isKeyChar_def)
qed

lemma read_index_string: "readPath (Arr xs) (js_string i) = Inr (arr_at xs i)"
proof -
  note f = js_string_index [of i]
  have "plain_path (dot_join [js_string i]) \<and> dot_join [js_string i] \<noteq> [] \<and>
      filter (\<lambda>s. s \<noteq> []) (split_on CHR ''.'' (dot_join [js_string i])) = [js_string i]"
    by (rule dot_join_tokens) (simp_all add: f)
  then have s: "read_segments (js_string i) = [js_string i]"
    by (simp add: read_segments_plain)
  have "js_string i \<noteq> ''*''" using f(4) by auto
  with f s cleanKey_index [OF f(1)] show ?thesis by simp
qed


text \<open>
  C8. For every array \<open>a\<close> of length \<open>n\<close> and every integer \<open>k\<close> with \<open>0 \<le> k < n\<close>,
  \<^verbatim>\<open>readValue(a, String(-1-k))\<close> equals \<^verbatim>\<open>readValue(a, String(n-1-k))\<close>: a negative index
  counts from the end, and \<^verbatim>\<open>"-1"\<close> reads the last element.
\<close>

theorem negative_index_from_end:
  "(0 \<le> k \<and> k < int (length xs) \<longrightarrow>
      readValue (Arr xs) (Str (js_string (- 1 - k)))
        = readValue (Arr xs) (Str (js_string (int (length xs) - 1 - k))))
   \<and> (xs \<noteq> [] \<longrightarrow>
        readValue (Arr xs) (Str ''-1'') = Inr (case last xs of None \<Rightarrow> Undefined | Some v \<Rightarrow> v))"
proof (intro conjI impI)
  assume "0 \<le> k \<and> k < int (length xs)"
  then have "rel_index (length xs) (- 1 - k) = rel_index (length xs) (int (length xs) - 1 - k)"
    by (simp add: rel_index_def algebra_simps)
  then have "arr_at xs (- 1 - k) = arr_at xs (int (length xs) - 1 - k)"
    by (simp only: arr_at_def)
  then show "readValue (Arr xs) (Str (js_string (- 1 - k)))
        = readValue (Arr xs) (Str (js_string (int (length xs) - 1 - k)))"
    by (simp only: readValue_def jsval.case read_index_string)
next
  assume ne: "xs \<noteq> []"
  have "js_string (- 1) = ''-1''"
    by (simp add: js_string_def digits_of_nat.simps digit_char_def)
  then have "readValue (Arr xs) (Str ''-1'') = Inr (arr_at xs (- 1))"
    using read_index_string [of xs "- 1"] by (simp add: readValue_def del: readPath.simps)
  moreover have "rel_index (length xs) (- 1) = Some (length xs - 1)"
    using ne by (cases xs) (simp_all add: rel_index_def)
  ultimately show "readValue (Arr xs) (Str ''-1'')
      = Inr (case last xs of None \<Rightarrow> Undefined | Some v \<Rightarrow> v)"
    using ne by (simp add: arr_at_def last_conv_nth)
qed

theorem negative_index_from_end_witness:
  "readValue (Arr [Some (Num 10), Some (Num 20), Some (Num 30)]) (Str (js_string (- 2)))
     = readValue (Arr [Some (Num 10), Some (Num 20), Some (Num 30)]) (Str (js_string 1))
   \<and> readValue (Arr [Some (Num 10), Some (Num 20), Some (Num 30)]) (Str ''-1'') = Inr (Num 30)"
  using negative_index_from_end [of 1 "[Some (Num 10), Some (Num 20), Some (Num 30)]"]
  by simp

section \<open>The store\<close>

text \<open>
  \<^verbatim>\<open>mapObject\<close> reads objects from a clone of its source and hands them to the result by
  reference; a later write can go through such an object, and a later read of the clone
  sees it. The functions of this section are the functions of the library on a store: a
  value is a scalar or a reference to a cell, a cell holds an object or an array, and the
  store is the list of all cells, a reference being an index into it. A new cell goes to
  the end of the store. \<^verbatim>\<open>writeValue\<close> changes cells in place, as the source does.
\<close>

datatype val = VUndefined | VNull | VBool bool | VNum int | VStr string | VRef nat

datatype cell = ObjCell "(string \<times> val) list" | ArrCell "val option list"

type_synonym store = "cell list"

definition cell_of :: "store \<Rightarrow> val \<Rightarrow> cell option" where
  "cell_of h v = (case v of VRef a \<Rightarrow> if a < length h then Some (h ! a) else None | _ \<Rightarrow> None)"

definition alloc :: "cell \<Rightarrow> store \<Rightarrow> val \<times> store" where
  "alloc c h = (VRef (length h), h @ [c])"

definition put_cell :: "val \<Rightarrow> cell \<Rightarrow> store \<Rightarrow> store" where
  "put_cell v c h = (case v of VRef a \<Rightarrow> h[a := c] | _ \<Rightarrow> h)"

definition isObject_s :: "store \<Rightarrow> val \<Rightarrow> bool" where
  "isObject_s h v = (case cell_of h v of Some (ObjCell _) \<Rightarrow> True | _ \<Rightarrow> False)"

definition isArray_s :: "store \<Rightarrow> val \<Rightarrow> bool" where
  "isArray_s h v = (case cell_of h v of Some (ArrCell _) \<Rightarrow> True | _ \<Rightarrow> False)"

definition get_prop_s :: "(string \<times> val) list \<Rightarrow> string \<Rightarrow> val" where
  "get_prop_s ps k = (case map_of ps k of None \<Rightarrow> VUndefined | Some v \<Rightarrow> v)"

definition arr_at_s :: "val option list \<Rightarrow> int \<Rightarrow> val" where
  "arr_at_s xs i =
     (case rel_index (length xs) i of
        None \<Rightarrow> VUndefined
      | Some j \<Rightarrow> (case xs ! j of None \<Rightarrow> VUndefined | Some v \<Rightarrow> v))"

definition str_at_s :: "string \<Rightarrow> int \<Rightarrow> val" where
  "str_at_s s i = (case rel_index (length s) i of None \<Rightarrow> VUndefined | Some j \<Rightarrow> VStr [s ! j])"

subsection \<open>Reading from the store\<close>

text \<open>\<^verbatim>\<open>a.map(f)\<close> where \<open>f\<close> may allocate: the items are visited in order, holes stay
  holes, the store is handed from one call to the next.\<close>

fun map_items_s :: "(val \<Rightarrow> store \<Rightarrow> (error + val) \<times> store) \<Rightarrow> val option list \<Rightarrow> store
    \<Rightarrow> (error + val option list) \<times> store" where
  "map_items_s f [] h = (Inr [], h)"
| "map_items_s f (None # xs) h =
     (case map_items_s f xs h of
        (Inl e, h1) \<Rightarrow> (Inl e, h1)
      | (Inr ys, h1) \<Rightarrow> (Inr (None # ys), h1))"
| "map_items_s f (Some x # xs) h =
     (case f x h of
        (Inl e, h1) \<Rightarrow> (Inl e, h1)
      | (Inr y, h1) \<Rightarrow>
          (case map_items_s f xs h1 of
             (Inl e, h2) \<Rightarrow> (Inl e, h2)
           | (Inr ys, h2) \<Rightarrow> (Inr (Some y # ys), h2)))"

lemma map_items_s_cong [fundef_cong]:
  "xs = ys \<Longrightarrow> h = h' \<Longrightarrow> (\<And>x k. Some x \<in> set ys \<Longrightarrow> f x k = g x k) \<Longrightarrow>
     map_items_s f xs h = map_items_s g ys h'"
proof (induction ys arbitrary: xs h h')
  case Nil
  then show ?case by simp
next
  case (Cons y ys)
  then show ?case by (cases y) (auto split: sum.splits prod.splits)
qed

function readPath_s :: "store \<Rightarrow> val \<Rightarrow> string \<Rightarrow> (error + val) \<times> store"
  and read_fold_s :: "store \<Rightarrow> val \<Rightarrow> string list \<Rightarrow> (error + val) \<times> store" where
  "readPath_s h obj path =
     (if path = [] then (Inl PathEmpty, h)
      else read_fold_s h obj (read_segments path))"
| "read_fold_s h currentObj [] = (Inr currentObj, h)"
| "read_fold_s h currentObj (key # rest) =
     (if key = [] then (Inl InvalidSegment, h)
      else if key = ''*'' then read_fold_s h currentObj rest
      else if isArrayKey key \<or> isIndexKey key then
        (case cell_of h currentObj of
           Some (ArrCell xs) \<Rightarrow>
             if cleanKey key = [] then read_fold_s h VUndefined rest
             else if isIndexKey (cleanKey key) then
               read_fold_s h (arr_at_s xs (parse_int (cleanKey key))) rest
             else
               (case map_items_s (\<lambda>item h1. if isObject_s h1 item
                                               then readPath_s h1 item (cleanKey key)
                                               else (Inr VUndefined, h1)) xs h of
                  (Inl e, h1) \<Rightarrow> (Inl e, h1)
                | (Inr ys, h1) \<Rightarrow>
                    (case alloc (ArrCell ys) h1 of (r, h2) \<Rightarrow> read_fold_s h2 r rest))
         | _ \<Rightarrow> read_fold_s h VUndefined rest)
      else
        read_fold_s h (case cell_of h currentObj of
                         Some (ObjCell ps) \<Rightarrow> get_prop_s ps key
                       | _ \<Rightarrow> VUndefined) rest)"
  by pat_completeness auto
termination
  apply (relation "measure (\<lambda>x. case x of
            Inl (h, obj, p) \<Rightarrow> 2 * path_weight p + 1
          | Inr (h, cur, segs) \<Rightarrow> 2 * sum_list (map seg_weight segs))")
  apply (simp_all add: seg_weight_pos read_segments_measure cleanKey_measure)
  done

definition readValue_s :: "store \<Rightarrow> val \<Rightarrow> val \<Rightarrow> (error + val) \<times> store" where
  "readValue_s h obj path =
     (case path of VStr p \<Rightarrow> readPath_s h obj p | _ \<Rightarrow> (Inl PathNotString, h))"


subsection \<open>Writing into the store\<close>

text \<open>
  \<open>getNextValue_s\<close> is the closure \<^verbatim>\<open>getNextValue\<close>: a new container is a new cell.
  \<open>forEach_s f a i n\<close> is \<^verbatim>\<open>currentObj.forEach(f)\<close> for the array in cell \<open>a\<close>, from index
  \<open>i\<close> on with \<open>n\<close> indices to go: the length is taken once, before the loop, and each item
  is read when its turn comes, from the store as the calls before have left it.

  \<^verbatim>\<open>writeValue\<close> calls itself for every item of an array, and an array can hold itself
  once a write has gone through a shared object, so that the recursion has no end.
  \<open>writePath_s\<close> takes the depth of the call stack that is left: a call at depth 0 is the
  \<^verbatim>\<open>RangeError\<close> of the runtime.
\<close>

definition getNextValue_s ::
    "store \<Rightarrow> bool \<Rightarrow> bool \<Rightarrow> val \<Rightarrow> val \<Rightarrow> val \<times> store" where
  "getNextValue_s h isLastKey nextArr value existingValue =
     (if isLastKey then (if value = VNull \<or> value = VUndefined then VUndefined else value, h)
      else if nextArr then
        (if isArray_s h existingValue then (existingValue, h) else alloc (ArrCell []) h)
      else
        (if isObject_s h existingValue then (existingValue, h) else alloc (ObjCell []) h))"

definition shouldUpdate_s :: "store \<Rightarrow> bool \<Rightarrow> val \<Rightarrow> bool" where
  "shouldUpdate_s h nextArr existingValue \<longleftrightarrow>
     \<not> (if nextArr then isArray_s h existingValue else isObject_s h existingValue)"

fun forEach_s :: "(val \<Rightarrow> store \<Rightarrow> (error + val) \<times> store) \<Rightarrow> val \<Rightarrow> nat \<Rightarrow> nat \<Rightarrow> store
    \<Rightarrow> (error + unit) \<times> store" where
  "forEach_s f a i 0 h = (Inr (), h)"
| "forEach_s f a i (Suc n) h =
     (case cell_of h a of
        Some (ArrCell xs) \<Rightarrow>
          (if i < length xs then
             (case xs ! i of
                None \<Rightarrow> forEach_s f a (Suc i) n h
              | Some item \<Rightarrow>
                  (case f item h of
                     (Inl e, h1) \<Rightarrow> (Inl e, h1)
                   | (Inr r, h1) \<Rightarrow> forEach_s f a (Suc i) n h1))
           else forEach_s f a (Suc i) n h)
      | _ \<Rightarrow> forEach_s f a (Suc i) n h)"

lemma forEach_s_cong [fundef_cong]:
  "a = b \<Longrightarrow> i = j \<Longrightarrow> n = m \<Longrightarrow> h = h' \<Longrightarrow> (\<And>x k. f x k = g x k) \<Longrightarrow>
     forEach_s f a i n h = forEach_s g b j m h'"
proof -
  assume "a = b" "i = j" "n = m" "h = h'" and fg: "\<And>x k. f x k = g x k"
  have "f = g" using fg by (intro ext)
  with \<open>a = b\<close> \<open>i = j\<close> \<open>n = m\<close> \<open>h = h'\<close> show ?thesis by simp
qed

function writePath_s :: "nat \<Rightarrow> store \<Rightarrow> val \<Rightarrow> string \<Rightarrow> val \<Rightarrow> (error + val) \<times> store"
  and write_fold_s :: "nat \<Rightarrow> store \<Rightarrow> val \<Rightarrow> string list \<Rightarrow> val \<Rightarrow> (error + val) \<times> store" where
  "writePath_s 0 h obj path value = (Inl RangeError, h)"
| "writePath_s (Suc d) h obj path value =
     (case (if value = VUndefined then readPath_s h obj path else (Inr VNull, h)) of
        (Inl e, h1) \<Rightarrow> (Inl e, h1)
      | (Inr r, h1) \<Rightarrow>
          if value = VUndefined \<and> r = VUndefined then (Inr obj, h1)
          else (case write_fold_s d h1 obj (write_segments path) value of
                  (Inl e, h2) \<Rightarrow> (Inl e, h2)
                | (Inr r, h2) \<Rightarrow> (Inr obj, h2)))"
| "write_fold_s d h currentObj [] value = (Inr currentObj, h)"
| "write_fold_s d h currentObj (key # rest) value =
     (let isLastKey = (rest = []); nextArr = nextIsArray rest
      in
      if isArrayKey key \<or> isIndexKey key then
        (if cleanKey key = [] then
           (case cell_of h currentObj of
              Some (ArrCell xs) \<Rightarrow>
                (case getNextValue_s h isLastKey nextArr value VUndefined of
                   (newValue, h1) \<Rightarrow>
                     write_fold_s d (put_cell currentObj (ArrCell (xs @ [Some newValue])) h1)
                       newValue rest value)
            | _ \<Rightarrow> (Inl TypeError, h))
         else if isIndexKey (cleanKey key) then
           (case cell_of h currentObj of
              Some (ArrCell xs) \<Rightarrow>
                (let i = parse_int (cleanKey key);
                     existingValue = arr_at_s xs i
                 in if shouldUpdate_s h nextArr existingValue then
                      (case getNextValue_s h isLastKey nextArr value existingValue of
                         (newValue, h1) \<Rightarrow>
                           (let xs1 = (if isNegIndex (cleanKey key) then splice1 i newValue xs
                                       else arr_set (cleanKey key) newValue xs)
                            in write_fold_s d (put_cell currentObj (ArrCell xs1) h1)
                                 (arr_at_s xs1 i) rest value))
                    else write_fold_s d h existingValue rest value)
            | Some (ObjCell ps) \<Rightarrow> (Inl TypeError, h)
            | None \<Rightarrow>
                (case currentObj of
                   VStr s \<Rightarrow>
                     (let i = parse_int (cleanKey key);
                          existingValue = str_at_s s i
                      in if shouldUpdate_s h nextArr existingValue then
                           (case getNextValue_s h isLastKey nextArr value existingValue of
                              (newValue, h1) \<Rightarrow>
                                if isNegIndex (cleanKey key) then (Inl TypeError, h1)
                                else write_fold_s d h1 (str_at_s s i) rest value)
                         else write_fold_s d h existingValue rest value)
                 | _ \<Rightarrow> (Inl TypeError, h)))
         else
           (case cell_of h currentObj of
              Some (ArrCell xs) \<Rightarrow>
                (case forEach_s (\<lambda>item h1.
                          case getNextValue_s h1 isLastKey nextArr value VUndefined of
                            (newValue, h2) \<Rightarrow> writePath_s d h2 item (cleanKey key) newValue)
                        currentObj 0 (length xs) h of
                   (Inl e, h1) \<Rightarrow> (Inl e, h1)
                 | (Inr u, h1) \<Rightarrow> write_fold_s d h1 currentObj rest value)
            | _ \<Rightarrow> (Inl TypeError, h)))
      else
        (case cell_of h currentObj of
           Some (ArrCell xs) \<Rightarrow>
             (case forEach_s (\<lambda>item h1.
                       case getNextValue_s h1 isLastKey nextArr value VUndefined of
                         (newValue, h2) \<Rightarrow> writePath_s d h2 item key newValue)
                     currentObj 0 (length xs) h of
                (Inl e, h1) \<Rightarrow> (Inl e, h1)
              | (Inr u, h1) \<Rightarrow> write_fold_s d h1 currentObj rest value)
         | Some (ObjCell ps) \<Rightarrow>
             (let existingValue = get_prop_s ps key
              in if shouldUpdate_s h nextArr existingValue then
                   (case getNextValue_s h isLastKey nextArr value existingValue of
                      (newValue, h1) \<Rightarrow>
                        write_fold_s d (put_cell currentObj (ObjCell (set_prop key newValue ps)) h1)
                          newValue rest value)
                 else if isLastKey then
                   write_fold_s d (put_cell currentObj (ObjCell (set_prop key value ps)) h)
                     value rest value
                 else write_fold_s d h existingValue rest value)
         | None \<Rightarrow>
             (if currentObj = VUndefined \<or> currentObj = VNull then (Inl TypeError, h)
              else (case getNextValue_s h isLastKey nextArr value VUndefined of
                      (newValue, h1) \<Rightarrow> write_fold_s d h1 VUndefined rest value))))"
  by pat_completeness auto
termination
  apply (relation "inv_image (less_than <*lex*> less_than)
           (\<lambda>x. case x of
              Inl (d, h, obj, p, v) \<Rightarrow> (2 * d, 0)
            | Inr (d, h, cur, segs, v) \<Rightarrow> (2 * d + 1, length segs))")
  apply simp_all
  apply (intro wf_inv_image wf_lex_prod wf_less_than)
  done

definition writeValue_s :: "nat \<Rightarrow> store \<Rightarrow> val \<Rightarrow> val \<Rightarrow> val \<Rightarrow> (error + val) \<times> store" where
  "writeValue_s d h obj path value =
     (case path of VStr p \<Rightarrow> writePath_s d h obj p value | _ \<Rightarrow> (Inl PathNotString, h))"

section \<open>Resolving field specifications\<close>

text \<open>
  A field specification is a string, an array of field specifications, or any other
  value (which the resolver passes over).

  \<open>has_field_sep\<close> is \<^verbatim>\<open>/::|,/.test(mapItem)\<close> and \<open>split_fields\<close> is
  \<^verbatim>\<open>map.split(/::|,/)\<close>: the separators are found from left to right, two colons
  before one comma at the same place. \<open>toMapArray\<close> splits a string and returns anything
  else as it is.
\<close>

datatype spec = SStr string | SArr "spec list" | SOther

fun has_field_sep :: "string \<Rightarrow> bool" where
  "has_field_sep [] = False"
| "has_field_sep (c # cs) =
     (c = CHR '','' \<or> (c = CHR '':'' \<and> cs \<noteq> [] \<and> hd cs = CHR '':'') \<or> has_field_sep cs)"

fun split_fields :: "string \<Rightarrow> string list" where
  "split_fields [] = [[]]"
| "split_fields (c # cs) =
     (if c = CHR '':'' \<and> cs \<noteq> [] \<and> hd cs = CHR '':'' then [] # split_fields (tl cs)
      else if c = CHR '','' then [] # split_fields cs
      else (case split_fields cs of [] \<Rightarrow> [[c]] | p # ps \<Rightarrow> (c # p) # ps))"

definition toMapArray :: "spec \<Rightarrow> spec" where
  "toMapArray m = (case m of SStr s \<Rightarrow> SArr (map SStr (split_fields s)) | _ \<Rightarrow> m)"

text \<open>
  \<open>isMapper\<close> is
  \<^verbatim>\<open>/(^[$\w-]+(\.[$\w-]+)*(:[$\w-]+(\.[$\w-]+)*)?\.$)|(^:[$\w-]+(\.[$\w-]+)*\.?$)/.test(val)\<close>:
  a dotted path, perhaps followed by a colon and a second dotted path, and a final dot; or
  a colon, a dotted path and perhaps a final dot. \<open>split_mapper\<close> is
  \<^verbatim>\<open>firstElement.split(/:|\.$/)\<close>: the pieces between colons, and a last empty piece
  behind a final dot.
\<close>

definition isMapper :: "string \<Rightarrow> bool" where
  "isMapper s \<longleftrightarrow>
     (s \<noteq> [] \<and> last s = CHR ''.'' \<and>
        (case split_on CHR '':'' (butlast s) of
           [p] \<Rightarrow> is_dotted p
         | [p, q] \<Rightarrow> is_dotted p \<and> is_dotted q
         | _ \<Rightarrow> False))
     \<or> (s \<noteq> [] \<and> hd s = CHR '':'' \<and>
          (is_dotted (tl s) \<or> (tl s \<noteq> [] \<and> last (tl s) = CHR ''.'' \<and> is_dotted (butlast (tl s)))))"

definition split_mapper :: "string \<Rightarrow> string list" where
  "split_mapper s =
     (let parts = split_on CHR '':'' s
      in if s \<noteq> [] \<and> last s = CHR ''.'' then butlast parts @ [butlast (last parts), []]
         else parts)"

text \<open>
  \<open>resolveMap\<close>: \<^verbatim>\<open>const [sourcePath, targetPath] = map.split(":")\<close>; the identifier is
  \<^verbatim>\<open>targetPath || sourcePath\<close>, so a target that is missing or empty gives the source
  path.
\<close>

definition resolveMap :: "store \<Rightarrow> val \<Rightarrow> spec \<Rightarrow> (error + string \<times> val) \<times> store" where
  "resolveMap h obj m =
     (case m of
        SStr s \<Rightarrow>
          (let parts = split_on CHR '':'' s;
               sourcePath = hd parts;
               targetPath = (case tl parts of [] \<Rightarrow> [] | t # _ \<Rightarrow> t)
           in case readValue_s h obj (VStr sourcePath) of
                (Inl e, h1) \<Rightarrow> (Inl e, h1)
              | (Inr v, h1) \<Rightarrow>
                  (Inr (if targetPath \<noteq> [] then targetPath else sourcePath, v), h1))
      | _ \<Rightarrow> (Inl MapNotString, h))"

text \<open>\<open>spec_weight\<close> measures a field specification for the termination of the resolver: a
  string with separators is resolved through the array of its pieces, which have none.\<close>

fun spec_weight :: "spec \<Rightarrow> nat" where
  "spec_weight (SStr s) = (if has_field_sep s then 2 * length s + 5 else 1)"
| "spec_weight (SArr xs) = 2 + sum_list (map spec_weight xs)"
| "spec_weight SOther = 1"

lemma split_fields_nonempty: "split_fields s \<noteq> []"
  by (induction s rule: split_fields.induct) (auto split: list.splits)

lemma split_fields_length: "length (split_fields s) \<le> Suc (length s)"
proof (induction s rule: split_fields.induct)
  case 1
  show ?case by simp
next
  case (2 c cs)
  then show ?case
    using split_fields_nonempty [of cs]
    by (cases cs) (auto split: list.splits)
qed

lemma split_fields_first:
  "split_fields cs = p # ps \<Longrightarrow> p \<noteq> [] \<Longrightarrow> cs \<noteq> [] \<and> hd p = hd cs"
  by (cases cs) (auto split: if_splits list.splits)

lemma split_fields_no_sep: "p \<in> set (split_fields s) \<Longrightarrow> \<not> has_field_sep p"
proof (induction s arbitrary: p rule: split_fields.induct)
  case 1
  then show ?case by simp
next
  case (2 c cs)
  show ?case
  proof (cases "c = CHR '':'' \<and> cs \<noteq> [] \<and> hd cs = CHR '':''")
    case True
    with 2 show ?thesis by auto
  next
    case nc: False
    show ?thesis
    proof (cases "c = CHR '',''")
      case True
      with 2 nc show ?thesis by auto
    next
      case False
      obtain p0 ps where sp: "split_fields cs = p0 # ps"
        using split_fields_nonempty [of cs] by (cases "split_fields cs") auto
      with nc False "2.prems" have "p = c # p0 \<or> p \<in> set ps" by auto
      then show ?thesis
      proof
        assume "p \<in> set ps"
        with "2.IH"(3) [OF nc False] sp show ?thesis by simp
      next
        assume p: "p = c # p0"
        have "\<not> has_field_sep p0" using "2.IH"(3) [OF nc False] sp by simp
        moreover have "\<not> (c = CHR '':'' \<and> p0 \<noteq> [] \<and> hd p0 = CHR '':'')"
          using nc split_fields_first [OF sp] by auto
        ultimately show ?thesis using p False by simp
      qed
    qed
  qed
qed

lemma no_sep_weight:
  "\<forall>p \<in> set ps. \<not> has_field_sep p \<Longrightarrow> sum_list (map spec_weight (map SStr ps)) = length ps"
  by (induction ps) simp_all

lemma split_fields_weight:
  "sum_list (map spec_weight (map SStr (split_fields s))) \<le> Suc (length s)"
  using no_sep_weight [of "split_fields s"] split_fields_length [of s]
  by (simp add: split_fields_no_sep)


text \<open>
  \<open>resolveMapArray\<close>. \<open>mapper_head\<close> is the test on the first element
  (\<^verbatim>\<open>typeof firstElement === "string" && isMapper(firstElement)\<close>) and gives the mapper
  and the elements behind it (\<^verbatim>\<open>workingMapArray.shift()\<close>). \<open>resolve_items\<close> is the
  \<^verbatim>\<open>workingMapArray.forEach(...)\<close> with the pairs it pushes.
\<close>

definition mapper_head :: "spec list \<Rightarrow> (string \<times> spec list) option" where
  "mapper_head items =
     (case items of
        SStr firstElement # working \<Rightarrow> if isMapper firstElement then Some (firstElement, working) else None
      | _ \<Rightarrow> None)"

definition prefix_ids :: "string \<Rightarrow> (string \<times> val) list \<Rightarrow> (string \<times> val) list" where
  "prefix_ids identifierPrefix rs = map (\<lambda>(identifier, v). (identifierPrefix @ identifier, v)) rs"

lemma mapper_head_weight:
  "mapper_head items = Some (f, working) \<Longrightarrow>
     sum_list (map spec_weight working) < Suc (sum_list (map spec_weight items))"
  by (auto simp: mapper_head_def split: list.splits spec.splits if_splits)

lemma toMapArray_weight:
  "has_field_sep s \<Longrightarrow> spec_weight (toMapArray (SStr s)) < 6 + (2 * length s + n)"
  using split_fields_weight [of s] by (simp add: toMapArray_def)

lemma spec_weight_pos: "0 < spec_weight m"
  by (cases m) simp_all

function resolveMapArray :: "store \<Rightarrow> val \<Rightarrow> spec \<Rightarrow> (error + (string \<times> val) list) \<times> store"
  and resolve_items ::
    "store \<Rightarrow> val \<Rightarrow> string \<Rightarrow> spec list \<Rightarrow> (error + (string \<times> val) list) \<times> store" where
  "resolveMapArray h obj mapArray =
     (case mapArray of
        SArr items \<Rightarrow>
          (case mapper_head items of
             Some (firstElement, working) \<Rightarrow>
               (let parts = split_mapper firstElement;
                    readP = hd parts;
                    writeP = (case tl parts of [] \<Rightarrow> [] | w # _ \<Rightarrow> w);
                    normalizedReadPath =
                      (if readP \<noteq> [] then readP
                       else if last firstElement = CHR ''.'' then writeP
                       else []);
                    identifierPrefix = (if writeP \<noteq> [] then writeP @ ''.'' else [])
                in case (if normalizedReadPath \<noteq> []
                         then readValue_s h obj (VStr normalizedReadPath)
                         else (Inr obj, h)) of
                     (Inl e, h1) \<Rightarrow> (Inl e, h1)
                   | (Inr sourceObj, h1) \<Rightarrow>
                       if sourceObj = VUndefined \<or> sourceObj = VNull then (Inr [], h1)
                       else resolve_items h1 sourceObj identifierPrefix working)
           | None \<Rightarrow>
               if obj = VUndefined \<or> obj = VNull then (Inr [], h)
               else resolve_items h obj [] items)
      | _ \<Rightarrow> (Inl MapArrayNotArray, h))"
| "resolve_items h sourceObj identifierPrefix [] = (Inr [], h)"
| "resolve_items h sourceObj identifierPrefix (mapItem # rest) =
     (case (case mapItem of
              SStr s \<Rightarrow>
                if has_field_sep s then
                  (case resolveMapArray h sourceObj (toMapArray mapItem) of
                     (Inl e, h1) \<Rightarrow> (Inl e, h1)
                   | (Inr nestedResults, h1) \<Rightarrow>
                       (Inr (prefix_ids identifierPrefix nestedResults), h1))
                else
                  (case resolveMap h sourceObj mapItem of
                     (Inl e, h1) \<Rightarrow> (Inl e, h1)
                   | (Inr (identifier, v), h1) \<Rightarrow> (Inr [(identifierPrefix @ identifier, v)], h1))
            | SArr xs \<Rightarrow>
                (case resolveMapArray h sourceObj mapItem of
                   (Inl e, h1) \<Rightarrow> (Inl e, h1)
                 | (Inr nestedResults, h1) \<Rightarrow>
                     (Inr (prefix_ids identifierPrefix nestedResults), h1))
            | SOther \<Rightarrow> (Inr [], h)) of
        (Inl e, h1) \<Rightarrow> (Inl e, h1)
      | (Inr resolved, h1) \<Rightarrow>
          (case resolve_items h1 sourceObj identifierPrefix rest of
             (Inl e, h2) \<Rightarrow> (Inl e, h2)
           | (Inr more, h2) \<Rightarrow> (Inr (resolved @ more), h2)))"
  by pat_completeness auto
termination
  apply (relation "measure (\<lambda>x. case x of
            Inl (h, obj, m) \<Rightarrow> spec_weight m
          | Inr (h, src, pre, items) \<Rightarrow> Suc (sum_list (map spec_weight items)))")
  apply (simp_all add: toMapArray_weight spec_weight_pos)
  apply (auto dest: mapper_head_weight)
  done

section \<open>The orchestrator\<close>

text \<open>
  \<^verbatim>\<open>JSON.parse(JSON.stringify(obj && obj.toObject ? obj.toObject() : obj))\<close>.
  \<open>snapshot\<close> is \<^verbatim>\<open>JSON.stringify\<close>, the JSON text being the tree it denotes: a property
  whose value is \<^verbatim>\<open>undefined\<close> is left out, a hole or \<^verbatim>\<open>undefined\<close> in an array becomes
  \<^verbatim>\<open>null\<close>, \<^verbatim>\<open>undefined\<close> itself gives no text at all (\<open>None\<close>), and a structure that
  holds itself raises a TypeError (the first argument bounds the nesting: a nesting deeper
  than the number of cells goes through one cell twice). \<open>alloc_tree\<close> is
  \<^verbatim>\<open>JSON.parse\<close>: every object and array of the text is a new cell. A source with a
  property \<^verbatim>\<open>toObject\<close> that is not a function (no value of the model is one) raises a
  TypeError when it is called.
\<close>

definition truthy :: "val \<Rightarrow> bool" where
  "truthy v =
     (case v of
        VUndefined \<Rightarrow> False | VNull \<Rightarrow> False | VBool b \<Rightarrow> b | VNum n \<Rightarrow> n \<noteq> 0
      | VStr s \<Rightarrow> s \<noteq> [] | VRef a \<Rightarrow> True)"

fun snap_props :: "(val \<Rightarrow> error + jsval option) \<Rightarrow> (string \<times> val) list
    \<Rightarrow> error + (string \<times> jsval) list" where
  "snap_props f [] = Inr []"
| "snap_props f ((k, v) # ps) =
     (case f v of
        Inl e \<Rightarrow> Inl e
      | Inr t \<Rightarrow>
          (case snap_props f ps of
             Inl e \<Rightarrow> Inl e
           | Inr ts \<Rightarrow> Inr (case t of None \<Rightarrow> ts | Some j \<Rightarrow> (k, j) # ts)))"

fun snap_items :: "(val \<Rightarrow> error + jsval option) \<Rightarrow> val option list
    \<Rightarrow> error + jsval option list" where
  "snap_items f [] = Inr []"
| "snap_items f (x # xs) =
     (case (case x of None \<Rightarrow> Inr None | Some v \<Rightarrow> f v) of
        Inl e \<Rightarrow> Inl e
      | Inr t \<Rightarrow>
          (case snap_items f xs of
             Inl e \<Rightarrow> Inl e
           | Inr ts \<Rightarrow> Inr (Some (case t of None \<Rightarrow> Null | Some j \<Rightarrow> j) # ts)))"

fun snapshot :: "nat \<Rightarrow> store \<Rightarrow> val \<Rightarrow> error + jsval option" where
  "snapshot n h VUndefined = Inr None"
| "snapshot n h VNull = Inr (Some Null)"
| "snapshot n h (VBool b) = Inr (Some (Bool b))"
| "snapshot n h (VNum i) = Inr (Some (Num i))"
| "snapshot n h (VStr s) = Inr (Some (Str s))"
| "snapshot 0 h (VRef a) = Inl TypeError"
| "snapshot (Suc n) h (VRef a) =
     (case cell_of h (VRef a) of
        None \<Rightarrow> Inl TypeError
      | Some (ObjCell ps) \<Rightarrow>
          (case snap_props (\<lambda>v. snapshot n h v) ps of
             Inl e \<Rightarrow> Inl e
           | Inr ts \<Rightarrow> Inr (Some (Obj ts)))
      | Some (ArrCell xs) \<Rightarrow>
          (case snap_items (\<lambda>v. snapshot n h v) xs of
             Inl e \<Rightarrow> Inl e
           | Inr ts \<Rightarrow> Inr (Some (Arr ts))))"

fun alloc_tree :: "jsval \<Rightarrow> store \<Rightarrow> val \<times> store"
  and alloc_items :: "jsval option list \<Rightarrow> store \<Rightarrow> val option list \<times> store"
  and alloc_props :: "(string \<times> jsval) list \<Rightarrow> store \<Rightarrow> (string \<times> val) list \<times> store" where
  "alloc_tree Undefined h = (VUndefined, h)"
| "alloc_tree Null h = (VNull, h)"
| "alloc_tree (Bool b) h = (VBool b, h)"
| "alloc_tree (Num i) h = (VNum i, h)"
| "alloc_tree (Str s) h = (VStr s, h)"
| "alloc_tree (Arr xs) h = (case alloc_items xs h of (ys, h1) \<Rightarrow> alloc (ArrCell ys) h1)"
| "alloc_tree (Obj ps) h = (case alloc_props ps h of (qs, h1) \<Rightarrow> alloc (ObjCell qs) h1)"
| "alloc_items [] h = ([], h)"
| "alloc_items (None # xs) h = (case alloc_items xs h of (ys, h1) \<Rightarrow> (None # ys, h1))"
| "alloc_items (Some x # xs) h =
     (case alloc_tree x h of (y, h1) \<Rightarrow>
        (case alloc_items xs h1 of (ys, h2) \<Rightarrow> (Some y # ys, h2)))"
| "alloc_props [] h = ([], h)"
| "alloc_props ((k, x) # ps) h =
     (case alloc_tree x h of (y, h1) \<Rightarrow>
        (case alloc_props ps h1 of (qs, h2) \<Rightarrow> ((k, y) # qs, h2)))"

definition clone :: "store \<Rightarrow> val \<Rightarrow> (error + val) \<times> store" where
  "clone h obj =
     (if truthy obj \<and>
         truthy (case cell_of h obj of Some (ObjCell ps) \<Rightarrow> get_prop_s ps ''toObject''
                 | _ \<Rightarrow> VUndefined)
      then (Inl TypeError, h)
      else (case snapshot (Suc (length h)) h obj of
              Inl e \<Rightarrow> (Inl e, h)
            | Inr None \<Rightarrow> (Inl SyntaxError, h)
            | Inr (Some t) \<Rightarrow> (case alloc_tree t h of (v, h1) \<Rightarrow> (Inr v, h1))))"

text \<open>
  \<open>apply_field\<close> is the body of \<^verbatim>\<open>resolvedFields.forEach(...)\<close> for one pair, with
  \<^verbatim>\<open>result.newObj\<close> as argument and result: for the identifier \<^verbatim>\<open>*\<close> the value is
  pushed, assigned or taken as the new result, otherwise it is written into the result.
  \<open>processMap\<close> is the function of that name, \<open>process_all\<close> the loop over the field
  specifications. \<open>mapObject\<close> takes the depth of the call stack for \<open>writeValue_s\<close>.
\<close>

definition apply_field :: "nat \<Rightarrow> store \<Rightarrow> val \<Rightarrow> string \<times> val \<Rightarrow> (error + val) \<times> store" where
  "apply_field d h newObj f =
     (case f of (identifier, value) \<Rightarrow>
        if identifier = ''*'' then
          (case (cell_of h newObj, cell_of h value) of
             (Some (ArrCell xs), Some (ArrCell ys)) \<Rightarrow>
               (Inr newObj,
                put_cell newObj
                  (ArrCell (xs @ map (\<lambda>y. Some (case y of None \<Rightarrow> VUndefined | Some v \<Rightarrow> v)) ys)) h)
           | (Some (ObjCell ps), Some (ObjCell qs)) \<Rightarrow>
               (Inr newObj,
                put_cell newObj (ObjCell (foldl (\<lambda>acc (k, v). set_prop k v acc) ps qs)) h)
           | _ \<Rightarrow> (Inr value, h))
        else
          (case writeValue_s d h newObj (VStr identifier) value of
             (Inl e, h1) \<Rightarrow> (Inl e, h1)
           | (Inr r, h1) \<Rightarrow> (Inr newObj, h1)))"

fun apply_fields :: "nat \<Rightarrow> store \<Rightarrow> val \<Rightarrow> (string \<times> val) list \<Rightarrow> (error + val) \<times> store" where
  "apply_fields d h newObj [] = (Inr newObj, h)"
| "apply_fields d h newObj (f # fs) =
     (case apply_field d h newObj f of
        (Inl e, h1) \<Rightarrow> (Inl e, h1)
      | (Inr newObj1, h1) \<Rightarrow> apply_fields d h1 newObj1 fs)"

definition processMap :: "nat \<Rightarrow> store \<Rightarrow> val \<Rightarrow> val \<Rightarrow> spec \<Rightarrow> (error + val) \<times> store" where
  "processMap d h sourceObj newObj mapSpec =
     (case toMapArray mapSpec of
        SArr items \<Rightarrow>
          (case resolveMapArray h sourceObj (SArr items) of
             (Inl e, h1) \<Rightarrow> (Inl e, h1)
           | (Inr resolvedFields, h1) \<Rightarrow> apply_fields d h1 newObj resolvedFields)
      | _ \<Rightarrow> (Inr newObj, h))"

fun process_all :: "nat \<Rightarrow> store \<Rightarrow> val \<Rightarrow> val \<Rightarrow> spec list \<Rightarrow> (error + val) \<times> store" where
  "process_all d h sourceObj newObj [] = (Inr newObj, h)"
| "process_all d h sourceObj newObj (mapSpec # fields) =
     (case processMap d h sourceObj newObj mapSpec of
        (Inl e, h1) \<Rightarrow> (Inl e, h1)
      | (Inr newObj1, h1) \<Rightarrow> process_all d h1 sourceObj newObj1 fields)"

definition mapObject :: "nat \<Rightarrow> store \<Rightarrow> val \<Rightarrow> spec list \<Rightarrow> (error + val) \<times> store" where
  "mapObject d h obj fields =
     (case alloc (if isArray_s h obj then ArrCell [] else ObjCell []) h of
        (newObj, h1) \<Rightarrow>
          (case clone h1 obj of
             (Inl e, h2) \<Rightarrow> (Inl e, h2)
           | (Inr sourceObj, h2) \<Rightarrow> process_all d h2 sourceObj newObj fields))"

text \<open>What a call returns, as a tree: the result of \<open>mapObject\<close> on the tree \<open>t\<close> put into
  an empty store.\<close>

definition mapObject_tree :: "nat \<Rightarrow> jsval \<Rightarrow> spec list \<Rightarrow> error + jsval option" where
  "mapObject_tree d t fields =
     (case alloc_tree t [] of
        (obj, h) \<Rightarrow>
          (case mapObject d h obj fields of
             (Inl e, h1) \<Rightarrow> Inl e
           | (Inr r, h1) \<Rightarrow> snapshot (Suc (length h1)) h1 r))"

text \<open>
  C1. The claim: a mapper directive passed as a field specification of its own applies to
  the field specifications that follow it in the same call, so that
  \<^verbatim>\<open>mapObject({street:"X", city:"Y"}, ":address.", "street", "city")\<close> returns
  \<^verbatim>\<open>{address:{street:"X", city:"Y"}}\<close> and
  \<^verbatim>\<open>mapObject({metadata:{author:"H"}}, "metadata:docInfo.", "author")\<close> returns
  \<^verbatim>\<open>{docInfo:{author:"H"}}\<close>. The comments of the source say the same
  (\<^verbatim>\<open>mapObject(user, "profile.", "name:fullName", "age")\<close> returning
  \<^verbatim>\<open>{ fullName: "Alice", age: 30 }\<close>). The code resolves every field specification
  by itself: the mapper alone yields no pair, and the specifications behind it are read
  from the whole source and written without a prefix. The theorem runs both calls.
\<close>

theorem top_level_mapper_not_applied:
  "mapObject_tree 5 (Obj [(''street'', Str ''X''), (''city'', Str ''Y'')])
       [SStr '':address.'', SStr ''street'', SStr ''city'']
     = Inr (Some (Obj [(''street'', Str ''X''), (''city'', Str ''Y'')]))
   \<and> mapObject_tree 5 (Obj [(''metadata'', Obj [(''author'', Str ''H'')])])
       [SStr ''metadata:docInfo.'', SStr ''author'']
     = Inr (Some (Obj []))"
  by code_simp

text \<open>
  C4. The claim: for a map string whose target is present but empty (\<^verbatim>\<open>"source:"\<close>) the
  resolver gives the last segment of the source path as identifier; the comment of
  \<^verbatim>\<open>resolveMap\<close> says so too (\<^verbatim>\<open>"user.name:"\<close> gives the identifier \<^verbatim>\<open>"name"\<close>). The
  code takes \<^verbatim>\<open>targetPath || sourcePath\<close>, the whole source path.
\<close>

theorem empty_target_keeps_source_path:
  "resolveMap [ObjCell [(''user'', VRef 1)], ObjCell [(''name'', VStr ''N'')]] (VRef 0)
       (SStr ''user.name:'')
     = (Inr (''user.name'', VStr ''N''),
        [ObjCell [(''user'', VRef 1)], ObjCell [(''name'', VStr ''N'')]])"
  by code_simp

section \<open>What a call leaves untouched\<close>

text \<open>
  Let \<open>h0\<close> be the store when \<open>mapObject\<close> is called. A value is new if it is a scalar or a
  reference to a cell that \<open>h0\<close> does not have; a cell is new if the values it holds are.
  A store \<open>h\<close> grows from \<open>h0\<close> if it starts with the cells of \<open>h0\<close>, unchanged, and
  every cell behind them is new.
\<close>

definition new_val :: "nat \<Rightarrow> val \<Rightarrow> bool" where
  "new_val n v = (case v of VRef a \<Rightarrow> n \<le> a | _ \<Rightarrow> True)"

definition new_cell :: "nat \<Rightarrow> cell \<Rightarrow> bool" where
  "new_cell n c =
     (case c of
        ObjCell ps \<Rightarrow> (\<forall>v \<in> snd ` set ps. new_val n v)
      | ArrCell xs \<Rightarrow> (\<forall>v. Some v \<in> set xs \<longrightarrow> new_val n v))"

definition grows :: "store \<Rightarrow> store \<Rightarrow> bool" where
  "grows h0 h \<longleftrightarrow>
     length h0 \<le> length h \<and> take (length h0) h = h0 \<and>
     (\<forall>a. length h0 \<le> a \<longrightarrow> a < length h \<longrightarrow> new_cell (length h0) (h ! a))"

definition new_res :: "nat \<Rightarrow> error + val \<Rightarrow> bool" where
  "new_res n r = (case r of Inl e \<Rightarrow> True | Inr v \<Rightarrow> new_val n v)"

lemma new_val_simps [simp]:
  "new_val n VUndefined" "new_val n VNull" "new_val n (VBool b)" "new_val n (VNum i)"
  "new_val n (VStr s)" "new_val n (VRef a) \<longleftrightarrow> n \<le> a"
  by (simp_all add: new_val_def)

lemma new_res_simps [simp]:
  "new_res n (Inl e)" "new_res n (Inr v) \<longleftrightarrow> new_val n v"
  by (simp_all add: new_res_def)

lemma new_cell_simps [simp]:
  "new_cell n (ObjCell [])" "new_cell n (ArrCell [])"
  "new_cell n (ArrCell (xs @ ys)) \<longleftrightarrow> new_cell n (ArrCell xs) \<and> new_cell n (ArrCell ys)"
  "new_cell n (ArrCell (x # xs)) \<longleftrightarrow> (case x of None \<Rightarrow> True | Some v \<Rightarrow> new_val n v) \<and> new_cell n (ArrCell xs)"
  "new_cell n (ObjCell ((k, v) # ps)) \<longleftrightarrow> new_val n v \<and> new_cell n (ObjCell ps)"
  by (auto simp: new_cell_def split: option.splits)

lemma grows_refl: "grows h h"
  by (simp add: grows_def)

lemma grows_take: "grows h0 h \<Longrightarrow> take (length h0) h = h0"
  by (simp add: grows_def)

lemma grows_alloc:
  assumes "grows h0 h" and "new_cell (length h0) c" and "alloc c h = (v, h')"
  shows "grows h0 h'" "new_val (length h0) v"
proof -
  from assms(3) have v: "v = VRef (length h)" and h': "h' = h @ [c]" by (simp_all add: alloc_def)
  from assms(1) show "new_val (length h0) v" by (simp add: v grows_def)
  from assms(1,2) show "grows h0 h'"
    by (auto simp: h' grows_def nth_append)
qed

lemma grows_put:
  assumes "grows h0 h" and "new_val (length h0) v" and "new_cell (length h0) c"
  shows "grows h0 (put_cell v c h)"
proof (cases v)
  case (VRef a)
  with assms(2) have a: "length h0 \<le> a" by simp
  show ?thesis
  proof (cases "a < length h")
    case True
    from assms(1) have "take (length h0) (h[a := c]) = h0"
      using a by (simp add: grows_def)
    moreover have "\<And>b. length h0 \<le> b \<Longrightarrow> b < length h \<Longrightarrow> new_cell (length h0) (h[a := c] ! b)"
      using assms(1,3) True by (simp add: grows_def nth_list_update)
    ultimately show ?thesis using assms(1) VRef by (simp add: put_cell_def grows_def)
  next
    case False
    then have "h[a := c] = h" by (simp add: list_update_beyond)
    then show ?thesis using assms(1) VRef by (simp add: put_cell_def)
  qed
qed (simp_all add: put_cell_def assms(1))

lemma cell_of_new:
  assumes "grows h0 h" and "new_val (length h0) v" and "cell_of h v = Some c"
  shows "new_cell (length h0) c"
  using assms by (cases v) (auto simp: cell_of_def grows_def split: if_splits)

lemma get_prop_s_new: "new_cell n (ObjCell ps) \<Longrightarrow> new_val n (get_prop_s ps k)"
  by (auto simp: get_prop_s_def new_cell_def split: option.splits dest!: map_of_SomeD)

lemma rel_index_less: "rel_index len i = Some j \<Longrightarrow> j < len"
  by (auto simp: rel_index_def Let_def split: if_splits)

lemma arr_at_s_new:
  assumes "new_cell n (ArrCell xs)"
  shows "new_val n (arr_at_s xs i)"
proof (cases "rel_index (length xs) i")
  case None
  then show ?thesis by (simp add: arr_at_s_def)
next
  case (Some j)
  then have "j < length xs" by (rule rel_index_less)
  then have "xs ! j \<in> set xs" by simp
  with assms Some show ?thesis
    by (cases "xs ! j") (auto simp: arr_at_s_def new_cell_def)
qed

lemma str_at_s_new [simp]: "new_val n (str_at_s s i)"
  by (simp add: str_at_s_def split: option.splits)

lemma set_prop_new:
  "new_cell n (ObjCell ps) \<Longrightarrow> new_val n v \<Longrightarrow> new_cell n (ObjCell (set_prop k v ps))"
  by (induction ps) (auto simp: set_prop_def)

lemma arr_set_new:
  "new_cell n (ArrCell xs) \<Longrightarrow> new_val n v \<Longrightarrow> new_cell n (ArrCell (arr_set k v xs))"
  by (auto simp: arr_set_def Let_def new_cell_def dest: set_update_subset_insert [THEN subsetD])

lemma splice1_new:
  "new_cell n (ArrCell xs) \<Longrightarrow> new_val n v \<Longrightarrow> new_cell n (ArrCell (splice1 i v xs))"
  by (auto simp: splice1_def Let_def new_cell_def dest: in_set_takeD in_set_dropD)

lemma map_items_s_grows:
  assumes "\<And>x k. Some x \<in> set xs \<Longrightarrow> grows h0 k \<Longrightarrow>
             grows h0 (snd (f x k)) \<and> new_res (length h0) (fst (f x k))"
    and "grows h0 h"
  shows "grows h0 (snd (map_items_s f xs h)) \<and>
         (case fst (map_items_s f xs h) of Inl e \<Rightarrow> True
          | Inr ys \<Rightarrow> new_cell (length h0) (ArrCell ys))"
  using assms
proof (induction xs arbitrary: h)
  case Nil
  then show ?case by simp
next
  case (Cons x xs)
  have ih: "\<And>k. grows h0 k \<Longrightarrow> grows h0 (snd (map_items_s f xs k)) \<and>
         (case fst (map_items_s f xs k) of Inl e \<Rightarrow> True
          | Inr ys \<Rightarrow> new_cell (length h0) (ArrCell ys))"
    using Cons.IH Cons.prems(1) by simp
  show ?case
  proof (cases x)
    case None
    with ih [OF Cons.prems(2)] show ?thesis
      by (auto split: prod.splits sum.splits)
  next
    case (Some v)
    have f: "grows h0 (snd (f v h)) \<and> new_res (length h0) (fst (f v h))"
      using Cons.prems(1) [of v h] Cons.prems(2) Some by simp
    show ?thesis
    proof (cases "f v h")
      case (Pair r h1)
      with f have g1: "grows h0 h1" and r: "new_res (length h0) r" by simp_all
      from ih [OF g1] g1 Pair Some r show ?thesis
        by (auto split: prod.splits sum.splits)
    qed
  qed
qed

lemma read_grows:
  "new_val (length h0) obj \<Longrightarrow> grows h0 h \<Longrightarrow>
     grows h0 (snd (readPath_s h obj path)) \<and> new_res (length h0) (fst (readPath_s h obj path))"
  "new_val (length h0) cur \<Longrightarrow> grows h0 h \<Longrightarrow>
     grows h0 (snd (read_fold_s h cur segs)) \<and> new_res (length h0) (fst (read_fold_s h cur segs))"
proof (induction h obj path and h cur segs rule: readPath_s_read_fold_s.induct)
  case (1 h obj path)
  then show ?case by simp
next
  case (2 h currentObj)
  then show ?case by simp
next
  case (3 h currentObj key rest)
  note new = "3.prems"(1) and g = "3.prems"(2)
  show ?case
  proof (cases "key = [] \<or> key = ''*''")
    case True
    with 3 show ?thesis by auto
  next
    case k: False
    then have k1: "key \<noteq> []" and k2: "key \<noteq> ''*''" by simp_all
    show ?thesis
    proof (cases "isArrayKey key \<or> isIndexKey key")
      case False
      have "new_val (length h0) (case cell_of h currentObj of None \<Rightarrow> VUndefined
            | Some (ObjCell ps) \<Rightarrow> get_prop_s ps key | Some (ArrCell list) \<Rightarrow> VUndefined)"
        using cell_of_new [OF g new]
        by (auto split: option.splits cell.splits intro: get_prop_s_new)
      from "3.IH"(8) [OF k1 k2 False this g] k1 k2 False show ?thesis by simp
    next
      case ak: True
      show ?thesis
      proof (cases "cell_of h currentObj")
        case None
        with "3.IH"(2) k ak g show ?thesis by simp
      next
        case (Some c)
        show ?thesis
        proof (cases c)
          case (ObjCell ps)
          with "3.IH"(3) k ak g Some show ?thesis by simp
        next
          case (ArrCell xs)
          have nc: "new_cell (length h0) (ArrCell xs)"
            using cell_of_new [OF g new] Some ArrCell by simp
          show ?thesis
          proof (cases "cleanKey key = []")
            case True
            with "3.IH"(4) k ak g Some ArrCell show ?thesis by simp
          next
            case ck: False
            show ?thesis
            proof (cases "isIndexKey (cleanKey key)")
              case True
              with "3.IH"(5) k ak g Some ArrCell ck arr_at_s_new [OF nc] show ?thesis by simp
            next
              case ni: False
              let ?f = "\<lambda>item h1. if isObject_s h1 item then readPath_s h1 item (cleanKey key)
                                     else (Inr VUndefined, h1)"
              have m: "grows h0 (snd (map_items_s ?f xs h)) \<and>
                  (case fst (map_items_s ?f xs h) of Inl e \<Rightarrow> True
                   | Inr ys \<Rightarrow> new_cell (length h0) (ArrCell ys))"
              proof (rule map_items_s_grows [OF _ g])
                fix x k' assume x: "Some x \<in> set xs" and gk: "grows h0 k'"
                have "new_val (length h0) x" using nc x by (auto simp: new_cell_def)
                then show "grows h0 (snd (?f x k')) \<and> new_res (length h0) (fst (?f x k'))"
                  using "3.IH"(6) [of c xs x k'] k ak Some ArrCell ck ni x gk by simp
              qed
              show ?thesis
              proof (cases "map_items_s ?f xs h")
                case (Pair r h1)
                show ?thesis
                proof (cases r)
                  case (Inl e)
                  with Pair m k ak Some ArrCell ck ni show ?thesis by simp
                next
                  case (Inr ys)
                  obtain v h2 where al: "alloc (ArrCell ys) h1 = (v, h2)" by fastforce
                  from m Pair Inr have "grows h0 h1" "new_cell (length h0) (ArrCell ys)"
                    by simp_all
                  from grows_alloc [OF this al] have "grows h0 h2" "new_val (length h0) v" .
                  with "3.IH"(7) [of c xs r h1 ys v h2] k ak Some ArrCell ck ni Pair Inr al
                  show ?thesis by simp
                qed
              qed
            qed
          qed
        qed
      qed
    qed
  qed
qed


lemma getNextValue_s_grows:
  assumes "grows h0 h" and "new_val (length h0) value" and "new_val (length h0) existing"
    and "getNextValue_s h l a value existing = (nv, h1)"
  shows "grows h0 h1" "new_val (length h0) nv"
proof -
  have "grows h0 h1 \<and> new_val (length h0) nv"
  proof (cases "l \<or> (a \<and> isArray_s h existing) \<or> (\<not> a \<and> isObject_s h existing)")
    case True
    with assms show ?thesis by (auto simp: getNextValue_s_def split: if_splits)
  next
    case False
    then have "alloc (if a then ArrCell [] else ObjCell []) h = (nv, h1)"
      using assms(4) by (auto simp: getNextValue_s_def split: if_splits)
    from grows_alloc [OF assms(1) _ this] show ?thesis by simp
  qed
  then show "grows h0 h1" "new_val (length h0) nv" by simp_all
qed

lemma forEach_s_grows:
  assumes "\<And>x k. new_val (length h0) x \<Longrightarrow> grows h0 k \<Longrightarrow> grows h0 (snd (f x k))"
    and "new_val (length h0) a"
  shows "grows h0 h \<Longrightarrow> grows h0 (snd (forEach_s f a i n h))"
proof (induction n arbitrary: i h)
  case 0
  then show ?case by simp
next
  case (Suc n)
  show ?case
  proof (cases "cell_of h a")
    case None
    with Suc show ?thesis by simp
  next
    case (Some c)
    show ?thesis
    proof (cases c)
      case (ObjCell ps)
      with Some Suc show ?thesis by simp
    next
      case (ArrCell xs)
      have nc: "new_cell (length h0) (ArrCell xs)"
        using cell_of_new [OF Suc.prems assms(2)] Some ArrCell by simp
      show ?thesis
      proof (cases "i < length xs")
        case False
        with Some ArrCell Suc show ?thesis by simp
      next
        case True
        show ?thesis
        proof (cases "xs ! i")
          case None
          with Some ArrCell True Suc show ?thesis by simp
        next
          case (Some item)
          then have "Some item \<in> set xs" using True by (metis nth_mem)
          with nc have "new_val (length h0) item" by (simp add: new_cell_def)
          from assms(1) [OF this Suc.prems] have g: "grows h0 (snd (f item h))" .
          show ?thesis
          proof (cases "f item h")
            case (Pair r h1)
            with g have "grows h0 h1" by simp
            with Suc.IH [of h1 "Suc i"] Pair Some True ArrCell \<open>cell_of h a = Some c\<close>
            show ?thesis by (cases r) simp_all
          qed
        qed
      qed
    qed
  qed
qed

lemma write_fold_s_grows_step:
  assumes P: "\<And>h obj path value. new_val (length h0) obj \<Longrightarrow> new_val (length h0) value \<Longrightarrow>
                grows h0 h \<Longrightarrow> grows h0 (snd (writePath_s d h obj path value))"
    and v: "new_val (length h0) value"
  shows "new_val (length h0) cur \<Longrightarrow> grows h0 h \<Longrightarrow>
           grows h0 (snd (write_fold_s d h cur segs value))"
proof (induction segs arbitrary: h cur)
  case Nil
  then show ?case by simp
next
  case (Cons key rest)
  note new = Cons.prems(1) and g = Cons.prems(2)
  note ih = Cons.IH
  have gn: "\<And>e nv h1 l a. new_val (length h0) e \<Longrightarrow>
              getNextValue_s h l a value e = (nv, h1) \<Longrightarrow> grows h0 h1 \<and> new_val (length h0) nv"
    using getNextValue_s_grows [OF g v] by blast
  have fe: "\<And>p l a n. grows h0 (snd (forEach_s (\<lambda>item h1.
                case getNextValue_s h1 l a value VUndefined of
                  (newValue, h2) \<Rightarrow> writePath_s d h2 item p newValue) cur 0 n h))"
  proof (rule forEach_s_grows [OF _ new g])
    fix p l a x k assume x: "new_val (length h0) x" and k: "grows h0 k"
    obtain nv h2 where n: "getNextValue_s k l a value VUndefined = (nv, h2)" by fastforce
    from getNextValue_s_grows [OF k v _ n] have "grows h0 h2" "new_val (length h0) nv"
      by simp_all
    from P [OF x this(2) this(1)] n
    show "grows h0 (snd (case getNextValue_s k l a value VUndefined of
                  (newValue, h2) \<Rightarrow> writePath_s d h2 x p newValue))"
      by simp
  qed
  have nc: "\<And>c. cell_of h cur = Some c \<Longrightarrow> new_cell (length h0) c"
    using cell_of_new [OF g new] by simp
  let ?l = "rest = []" and ?a = "nextIsArray rest"
  show ?case
  proof (cases "isArrayKey key \<or> isIndexKey key")
    case ak: True
    show ?thesis
    proof (cases "cleanKey key = []")
      case ck: True
      show ?thesis
      proof (cases "cell_of h cur")
        case None
        with ak ck g show ?thesis by simp
      next
        case (Some c)
        show ?thesis
        proof (cases c)
          case (ObjCell ps)
          with ak ck g Some show ?thesis by simp
        next
          case (ArrCell xs)
          obtain nv h1 where n: "getNextValue_s h ?l ?a value VUndefined = (nv, h1)" by fastforce
          from gn [OF _ n] have g1: "grows h0 h1" and nn: "new_val (length h0) nv" by simp_all
          have "new_cell (length h0) (ArrCell (xs @ [Some nv]))"
            using nc [OF Some] ArrCell nn by simp
          from ih [OF nn grows_put [OF g1 new this]] ak ck Some ArrCell n
          show ?thesis by simp
        qed
      qed
    next
      case ck: False
      show ?thesis
      proof (cases "isIndexKey (cleanKey key)")
        case ik: True
        let ?i = "parse_int (cleanKey key)"
        show ?thesis
        proof (cases "cell_of h cur")
          case None
          show ?thesis
          proof (cases "\<exists>s. cur = VStr s")
            case False
            with ak ck ik g None show ?thesis by (cases cur) simp_all
          next
            case True
            then obtain s where s: "cur = VStr s" by blast
            show ?thesis
            proof (cases "shouldUpdate_s h ?a (str_at_s s ?i)")
              case False
              from ih [OF _ g, of "str_at_s s ?i"] ak ck ik None s False
              show ?thesis by (simp add: Let_def)
            next
              case True
              obtain nv h1 where n: "getNextValue_s h ?l ?a value (str_at_s s ?i) = (nv, h1)"
                by fastforce
              from gn [OF _ n] have g1: "grows h0 h1" by simp
              from ih [OF _ g1, of "str_at_s s ?i"] g1 ak ck ik None s True n
              show ?thesis by (simp add: Let_def)
            qed
          qed
        next
          case (Some c)
          show ?thesis
          proof (cases c)
            case (ObjCell ps)
            with ak ck ik g Some show ?thesis by simp
          next
            case (ArrCell xs)
            have nx: "new_cell (length h0) (ArrCell xs)" using nc [OF Some] ArrCell by simp
            have ne: "new_val (length h0) (arr_at_s xs ?i)" using nx by (rule arr_at_s_new)
            show ?thesis
            proof (cases "shouldUpdate_s h ?a (arr_at_s xs ?i)")
              case False
              from ih [OF ne g] ak ck ik Some ArrCell False
              show ?thesis by (simp add: Let_def)
            next
              case True
              obtain nv h1 where n: "getNextValue_s h ?l ?a value (arr_at_s xs ?i) = (nv, h1)"
                by fastforce
              from gn [OF ne n] have g1: "grows h0 h1" and nn: "new_val (length h0) nv"
                by simp_all
              define xs1 where "xs1 = (if isNegIndex (cleanKey key) then splice1 ?i nv xs
                                       else arr_set (cleanKey key) nv xs)"
              have n1: "new_cell (length h0) (ArrCell xs1)"
                using nx nn by (simp add: xs1_def splice1_new arr_set_new)
              from ih [OF arr_at_s_new [OF n1] grows_put [OF g1 new n1]]
                ak ck ik Some ArrCell True n
              show ?thesis by (simp add: Let_def xs1_def)
            qed
          qed
        qed
      next
        case ik: False
        show ?thesis
        proof (cases "cell_of h cur")
          case None
          with ak ck ik g show ?thesis by simp
        next
          case (Some c)
          show ?thesis
          proof (cases c)
            case (ObjCell ps)
            with ak ck ik g Some show ?thesis by simp
          next
            case (ArrCell xs)
            let ?r = "forEach_s (\<lambda>item h1.
                case getNextValue_s h1 ?l ?a value VUndefined of
                  (newValue, h2) \<Rightarrow> writePath_s d h2 item (cleanKey key) newValue)
                cur 0 (length xs) h"
            have f: "grows h0 (snd ?r)" by (rule fe)
            show ?thesis
            proof (cases ?r)
              case (Pair r h1)
              with f have g1: "grows h0 h1" by simp
              from ih [OF new g1] g1 ak ck ik Some ArrCell Pair
              show ?thesis by (cases r) (simp_all add: Let_def)
            qed
          qed
        qed
      qed
    qed
  next
    case ak: False
    show ?thesis
    proof (cases "cell_of h cur")
      case None
      show ?thesis
      proof (cases "cur = VUndefined \<or> cur = VNull")
        case True
        with ak None g show ?thesis by (simp add: Let_def)
      next
        case False
        obtain nv h1 where n: "getNextValue_s h ?l ?a value VUndefined = (nv, h1)" by fastforce
        from gn [OF _ n] have g1: "grows h0 h1" by simp
        from ih [OF _ g1, of VUndefined] ak None False n
        show ?thesis by (simp add: Let_def)
      qed
    next
      case (Some c)
      show ?thesis
      proof (cases c)
        case (ArrCell xs)
        let ?r = "forEach_s (\<lambda>item h1.
            case getNextValue_s h1 ?l ?a value VUndefined of
              (newValue, h2) \<Rightarrow> writePath_s d h2 item key newValue)
            cur 0 (length xs) h"
        have f: "grows h0 (snd ?r)" by (rule fe)
        show ?thesis
        proof (cases ?r)
          case (Pair r h1)
          with f have g1: "grows h0 h1" by simp
          from ih [OF new g1] g1 ak Some ArrCell Pair
          show ?thesis by (cases r) (simp_all add: Let_def)
        qed
      next
        case (ObjCell ps)
        have np: "new_cell (length h0) (ObjCell ps)" using nc [OF Some] ObjCell by simp
        have ne: "new_val (length h0) (get_prop_s ps key)" using np by (rule get_prop_s_new)
        show ?thesis
        proof (cases "shouldUpdate_s h ?a (get_prop_s ps key)")
          case True
          obtain nv h1 where n: "getNextValue_s h ?l ?a value (get_prop_s ps key) = (nv, h1)"
            by fastforce
          from gn [OF ne n] have g1: "grows h0 h1" and nn: "new_val (length h0) nv"
            by simp_all
          from ih [OF nn grows_put [OF g1 new set_prop_new [OF np nn]]]
            ak Some ObjCell True n
          show ?thesis by (simp add: Let_def)
        next
          case su: False
          show ?thesis
          proof (cases ?l)
            case True
            from ih [OF v grows_put [OF g new set_prop_new [OF np v]]]
              ak Some ObjCell su True
            show ?thesis by (simp add: Let_def)
          next
            case False
            from ih [OF ne g] ak Some ObjCell su False
            show ?thesis by (simp add: Let_def)
          qed
        qed
      qed
    qed
  qed
qed

lemma write_grows:
  "new_val (length h0) obj \<Longrightarrow> new_val (length h0) v \<Longrightarrow> grows h0 h \<Longrightarrow>
     grows h0 (snd (writePath_s d h obj path v))"
proof (induction d arbitrary: h obj path v)
  case 0
  then show ?case by simp
next
  case (Suc d)
  note new = Suc.prems(1) and nv = Suc.prems(2) and g = Suc.prems(3)
  let ?r = "if v = VUndefined then readPath_s h obj path else (Inr VNull, h)"
  have gr: "grows h0 (snd ?r)" using read_grows(1) [OF new g] g by simp
  show ?case
  proof (cases ?r)
    case (Pair r h1)
    with gr have g1: "grows h0 h1" by simp
    have w: "grows h0 (snd (write_fold_s d h1 obj (write_segments path) v))"
      by (rule write_fold_s_grows_step [OF Suc.IH nv new g1])
    show ?thesis
    proof (cases r)
      case (Inl e)
      with Pair g1 show ?thesis by simp
    next
      case (Inr x)
      with Pair g1 w show ?thesis
        by (cases "write_fold_s d h1 obj (write_segments path) v")
          (auto split: sum.splits)
    qed
  qed
qed

lemma writeValue_s_grows:
  "new_val (length h0) obj \<Longrightarrow> new_val (length h0) v \<Longrightarrow> grows h0 h \<Longrightarrow>
     grows h0 (snd (writeValue_s d h obj path v))"
  by (cases path) (simp_all add: writeValue_s_def write_grows)

lemma readValue_s_grows:
  "new_val (length h0) obj \<Longrightarrow> grows h0 h \<Longrightarrow>
     grows h0 (snd (readValue_s h obj path)) \<and> new_res (length h0) (fst (readValue_s h obj path))"
  by (cases path) (simp_all add: readValue_s_def read_grows)

text \<open>The pairs that the resolver yields hold new values.\<close>

definition new_pairs :: "nat \<Rightarrow> error + (string \<times> val) list \<Rightarrow> bool" where
  "new_pairs n r = (case r of Inl e \<Rightarrow> True | Inr ps \<Rightarrow> (\<forall>v \<in> snd ` set ps. new_val n v))"

lemma new_pairs_simps [simp]:
  "new_pairs n (Inl e)" "new_pairs n (Inr [])"
  "new_pairs n (Inr (ps @ qs)) \<longleftrightarrow> new_pairs n (Inr ps) \<and> new_pairs n (Inr qs)"
  "new_pairs n (Inr ((k, v) # ps)) \<longleftrightarrow> new_val n v \<and> new_pairs n (Inr ps)"
  "new_pairs n (Inr (prefix_ids pre ps)) \<longleftrightarrow> new_pairs n (Inr ps)"
  by (auto simp: new_pairs_def prefix_ids_def image_iff split: prod.splits)

lemma resolveMap_grows:
  assumes "new_val (length h0) obj" and "grows h0 h"
  shows "grows h0 (snd (resolveMap h obj m))"
    "case fst (resolveMap h obj m) of Inl e \<Rightarrow> True | Inr (k, v) \<Rightarrow> new_val (length h0) v"
proof -
  have "grows h0 (snd (resolveMap h obj m)) \<and>
    (case fst (resolveMap h obj m) of Inl e \<Rightarrow> True | Inr (k, v) \<Rightarrow> new_val (length h0) v)"
  proof (cases m)
    case (SStr s)
    let ?r = "readValue_s h obj (VStr (hd (split_on CHR '':'' s)))"
    from readValue_s_grows [OF assms, of "VStr (hd (split_on CHR '':'' s))"]
    show ?thesis using SStr
      by (cases ?r) (auto simp: resolveMap_def Let_def split: sum.splits)
  qed (simp_all add: resolveMap_def assms)
  then show "grows h0 (snd (resolveMap h obj m))"
    "case fst (resolveMap h obj m) of Inl e \<Rightarrow> True | Inr (k, v) \<Rightarrow> new_val (length h0) v"
    by simp_all
qed


lemma resolve_grows:
  "new_val (length h0) obj \<Longrightarrow> grows h0 h \<Longrightarrow>
     grows h0 (snd (resolveMapArray h obj m)) \<and>
     new_pairs (length h0) (fst (resolveMapArray h obj m))"
  "new_val (length h0) src \<Longrightarrow> grows h0 h \<Longrightarrow>
     grows h0 (snd (resolve_items h src pre items)) \<and>
     new_pairs (length h0) (fst (resolve_items h src pre items))"
proof (induction h obj m and h src pre items rule: resolveMapArray_resolve_items.induct)
  case (1 h obj mapArray)
  note new = "1.prems"(1) and g = "1.prems"(2)
  show ?case
  proof (cases mapArray)
    case (SArr items)
    show ?thesis
    proof (cases "mapper_head items")
      case None
      with "1.IH"(1) [OF SArr None] SArr new g show ?thesis by auto
    next
      case (Some fw)
      obtain firstElement working where fw: "fw = (firstElement, working)" by (cases fw)
      define parts where "parts = split_mapper firstElement"
      define readP where "readP = hd parts"
      define writeP where "writeP = (case tl parts of [] \<Rightarrow> [] | w # x \<Rightarrow> w)"
      define nrp where "nrp = (if readP \<noteq> [] then readP
                               else if last firstElement = CHR ''.'' then writeP else [])"
      define pre where "pre = (if writeP \<noteq> [] then writeP @ ''.'' else [])"
      define rd where "rd = (if nrp \<noteq> [] then readValue_s h obj (VStr nrp) else (Inr obj, h))"
      have grd: "grows h0 (snd rd) \<and> new_res (length h0) (fst rd)"
        using readValue_s_grows [OF new g, of "VStr nrp"] new g by (simp add: rd_def)
      have eq: "resolveMapArray h obj mapArray =
          (case rd of (Inl e, h1) \<Rightarrow> (Inl e, h1)
           | (Inr sourceObj, h1) \<Rightarrow>
               if sourceObj = VUndefined \<or> sourceObj = VNull then (Inr [], h1)
               else resolve_items h1 sourceObj pre working)"
        unfolding SArr
        by (simp only: resolveMapArray.simps [of h obj "SArr items"] Some fw spec.case
            option.case prod.case Let_def parts_def readP_def writeP_def nrp_def pre_def rd_def)
      show ?thesis
      proof (cases rd)
        case (Pair r h1)
        with grd have g1: "grows h0 h1" and nr: "new_res (length h0) r" by simp_all
        show ?thesis
        proof (cases r)
          case (Inl e)
          with eq Pair g1 show ?thesis by simp
        next
          case (Inr sourceObj)
          show ?thesis
          proof (cases "sourceObj = VUndefined \<or> sourceObj = VNull")
            case True
            with eq Pair Inr g1 show ?thesis by auto
          next
            case False
            have "grows h0 (snd (resolve_items h1 sourceObj pre working)) \<and>
                  new_pairs (length h0) (fst (resolve_items h1 sourceObj pre working))"
            proof -
              have rdeq: "(r, h1) =
                  (if nrp \<noteq> [] then readValue_s h obj (VStr nrp) else (Inr obj, h))"
                using Pair by (simp add: rd_def)
              have nv: "new_val (length h0) sourceObj" using nr Inr by simp
              show ?thesis
                by (rule "1.IH"(2) [OF SArr Some fw [symmetric] parts_def readP_def writeP_def
                      nrp_def pre_def rdeq Inr False nv g1])
            qed
            with eq Pair Inr False show ?thesis by simp
          qed
        qed
      qed
    qed
  qed (simp_all add: "1.prems")
next
  case (2 h sourceObj identifierPrefix)
  then show ?case by simp
next
  case (3 h sourceObj identifierPrefix mapItem rest)
  note new = "3.prems"(1) and g = "3.prems"(2)
  define it where "it =
     (case mapItem of
        SStr s \<Rightarrow>
          if has_field_sep s
          then case resolveMapArray h sourceObj (toMapArray mapItem) of
                 (Inl e, h1) \<Rightarrow> (Inl e, h1)
               | (Inr nestedResults, h1) \<Rightarrow>
                   (Inr (prefix_ids identifierPrefix nestedResults), h1)
          else case resolveMap h sourceObj mapItem of
                 (Inl e, h1) \<Rightarrow> (Inl e, h1)
               | (Inr (identifier, v), h1) \<Rightarrow>
                   (Inr [(identifierPrefix @ identifier, v)], h1)
      | SArr xs \<Rightarrow>
          case resolveMapArray h sourceObj mapItem of
            (Inl e, h1) \<Rightarrow> (Inl e, h1)
          | (Inr nestedResults, h1) \<Rightarrow>
              (Inr (prefix_ids identifierPrefix nestedResults), h1)
      | SOther \<Rightarrow> (Inr [], h))"
  have git: "grows h0 (snd it) \<and> new_pairs (length h0) (fst it)"
  proof (cases mapItem)
    case (SStr s)
    show ?thesis
    proof (cases "has_field_sep s")
      case True
      from "3.IH"(1) [OF SStr True new g] SStr True show ?thesis
        by (cases "resolveMapArray h sourceObj (toMapArray mapItem)")
          (auto simp: it_def split: sum.splits)
    next
      case False
      from resolveMap_grows [OF new g, of mapItem] SStr False show ?thesis
        by (cases "resolveMap h sourceObj mapItem")
          (auto simp: it_def split: sum.splits)
    qed
  next
    case (SArr xs)
    from "3.IH"(2) [OF SArr new g] SArr show ?thesis
      by (cases "resolveMapArray h sourceObj mapItem")
        (auto simp: it_def split: sum.splits)
  next
    case SOther
    with g show ?thesis by (simp add: it_def)
  qed
  have eq: "resolve_items h sourceObj identifierPrefix (mapItem # rest) =
      (case it of (Inl e, h1) \<Rightarrow> (Inl e, h1)
       | (Inr resolved, h1) \<Rightarrow>
           (case resolve_items h1 sourceObj identifierPrefix rest of
              (Inl e, h2) \<Rightarrow> (Inl e, h2)
            | (Inr more, h2) \<Rightarrow> (Inr (resolved @ more), h2)))"
    by (simp add: it_def)
  show ?case
  proof (cases it)
    case (Pair r h1)
    with git have g1: "grows h0 h1" and nr: "new_pairs (length h0) r" by simp_all
    show ?thesis
    proof (cases r)
      case (Inl e)
      with eq Pair g1 show ?thesis by simp
    next
      case (Inr resolved)
      have "grows h0 (snd (resolve_items h1 sourceObj identifierPrefix rest)) \<and>
            new_pairs (length h0) (fst (resolve_items h1 sourceObj identifierPrefix rest))"
        using "3.IH"(3) [of r h1 resolved] Pair Inr new g1 by (simp add: it_def)
      with eq Pair Inr nr show ?thesis
        by (cases "resolve_items h1 sourceObj identifierPrefix rest")
          (auto split: sum.splits)
    qed
  qed
qed

text \<open>The clone is made of new cells.\<close>

lemma alloc_grows:
  "grows h0 h \<Longrightarrow>
     grows h0 (snd (alloc_tree t h)) \<and> new_val (length h0) (fst (alloc_tree t h))"
  "grows h0 h \<Longrightarrow>
     grows h0 (snd (alloc_items xs h)) \<and> new_cell (length h0) (ArrCell (fst (alloc_items xs h)))"
  "grows h0 h \<Longrightarrow>
     grows h0 (snd (alloc_props ps h)) \<and> new_cell (length h0) (ObjCell (fst (alloc_props ps h)))"
proof (induction t h and xs h and ps h rule: alloc_tree_alloc_items_alloc_props.induct)
  case (6 xs h)
  obtain ys h1 where a: "alloc_items xs h = (ys, h1)" by (cases "alloc_items xs h")
  with "6.IH" "6.prems" have g1: "grows h0 h1" and n: "new_cell (length h0) (ArrCell ys)"
    by simp_all
  obtain v h2 where b: "alloc (ArrCell ys) h1 = (v, h2)" by (cases "alloc (ArrCell ys) h1")
  from grows_alloc [OF g1 n b] a b show ?case by simp
next
  case (7 ps h)
  obtain qs h1 where a: "alloc_props ps h = (qs, h1)" by (cases "alloc_props ps h")
  with "7.IH" "7.prems" have g1: "grows h0 h1" and n: "new_cell (length h0) (ObjCell qs)"
    by simp_all
  obtain v h2 where b: "alloc (ObjCell qs) h1 = (v, h2)" by (cases "alloc (ObjCell qs) h1")
  from grows_alloc [OF g1 n b] a b show ?case by simp
next
  case (9 xs h)
  then show ?case by (cases "alloc_items xs h") simp
next
  case (10 x xs h)
  obtain y h1 where a: "alloc_tree x h = (y, h1)" by (cases "alloc_tree x h")
  with "10.IH"(1) "10.prems" have g1: "grows h0 h1" and n: "new_val (length h0) y" by simp_all
  obtain ys h2 where b: "alloc_items xs h1 = (ys, h2)" by (cases "alloc_items xs h1")
  with "10.IH"(2) [OF a [symmetric] g1] have "grows h0 h2" "new_cell (length h0) (ArrCell ys)"
    by simp_all
  with a b n show ?case by simp
next
  case (12 k x ps h)
  obtain y h1 where a: "alloc_tree x h = (y, h1)" by (cases "alloc_tree x h")
  with "12.IH"(1) "12.prems" have g1: "grows h0 h1" and n: "new_val (length h0) y" by simp_all
  obtain qs h2 where b: "alloc_props ps h1 = (qs, h2)" by (cases "alloc_props ps h1")
  with "12.IH"(2) [OF a [symmetric] g1] have "grows h0 h2" "new_cell (length h0) (ObjCell qs)"
    by simp_all
  with a b n show ?case by simp
qed simp_all

lemma clone_grows:
  assumes "grows h0 h"
  shows "grows h0 (snd (clone h obj)) \<and> new_res (length h0) (fst (clone h obj))"
proof (cases "snapshot (Suc (length h)) h obj")
  case (Inl e)
  with assms show ?thesis by (simp add: clone_def)
next
  case (Inr t)
  show ?thesis
  proof (cases t)
    case None
    with Inr assms show ?thesis by (simp add: clone_def)
  next
    case (Some j)
    from alloc_grows(1) [OF assms, of j] Inr Some assms show ?thesis
      by (cases "alloc_tree j h") (simp add: clone_def)
  qed
qed

text \<open>Writing into the result.\<close>

lemma assign_new:
  "new_cell n (ObjCell ps) \<Longrightarrow> new_cell n (ObjCell qs) \<Longrightarrow>
     new_cell n (ObjCell (foldl (\<lambda>acc (k, v). set_prop k v acc) ps qs))"
proof (induction qs arbitrary: ps)
  case Nil
  then show ?case by simp
next
  case (Cons q qs)
  obtain k v where q: "q = (k, v)" by (cases q)
  from Cons.prems have "new_val n v" "new_cell n (ObjCell qs)" by (simp_all add: q)
  with Cons.prems(1) Cons.IH [of "set_prop k v ps"] show ?case
    by (simp add: q set_prop_new)
qed

lemma push_new:
  "new_cell n (ArrCell ys) \<Longrightarrow>
     new_cell n (ArrCell (map (\<lambda>y. Some (case y of None \<Rightarrow> VUndefined | Some v \<Rightarrow> v)) ys))"
  by (induction ys) (simp_all split: option.splits)

lemma apply_field_grows:
  assumes new: "new_val (length h0) newObj" and nv: "new_val (length h0) (snd f)"
    and g: "grows h0 h"
  shows "grows h0 (snd (apply_field d h newObj f)) \<and>
         new_res (length h0) (fst (apply_field d h newObj f))"
proof -
  obtain ident v where f: "f = (ident, v)" by (cases f)
  from nv have nv': "new_val (length h0) v" by (simp add: f)
  show ?thesis
  proof (cases "ident = ''*''")
    case False
    from writeValue_s_grows [OF new nv' g, of d "VStr ident"] new False show ?thesis
      by (cases "writeValue_s d h newObj (VStr ident) v")
        (auto simp: apply_field_def f split: sum.splits)
  next
    case True
    have cn: "\<And>c. cell_of h newObj = Some c \<Longrightarrow> new_cell (length h0) c"
      using cell_of_new [OF g new] .
    have cv: "\<And>c. cell_of h v = Some c \<Longrightarrow> new_cell (length h0) c"
      using cell_of_new [OF g nv'] .
    show ?thesis
    proof (cases "cell_of h newObj")
      case None
      with True g nv' show ?thesis by (simp add: apply_field_def f)
    next
      case (Some c)
      note cN = Some
      show ?thesis
      proof (cases "cell_of h v")
        case None
        with True g nv' cN show ?thesis
          by (cases c) (simp_all add: apply_field_def f)
      next
        case (Some c')
        show ?thesis
        proof (cases c)
          case (ObjCell ps)
          show ?thesis
          proof (cases c')
            case (ObjCell qs)
            have "new_cell (length h0) (ObjCell (foldl (\<lambda>acc (k, v). set_prop k v acc) ps qs))"
              using cn [OF cN] cv [OF Some] \<open>c = ObjCell ps\<close> ObjCell by (simp add: assign_new)
            from grows_put [OF g new this] True cN Some \<open>c = ObjCell ps\<close> ObjCell new
            show ?thesis by (simp add: apply_field_def f)
          next
            case (ArrCell ys)
            with True g nv' cN Some ObjCell show ?thesis by (simp add: apply_field_def f)
          qed
        next
          case (ArrCell xs)
          show ?thesis
          proof (cases c')
            case (ObjCell qs)
            with True g nv' cN Some ArrCell show ?thesis by (simp add: apply_field_def f)
          next
            case (ArrCell ys)
            have "new_cell (length h0)
                (ArrCell (xs @ map (\<lambda>y. Some (case y of None \<Rightarrow> VUndefined | Some v \<Rightarrow> v)) ys))"
              using cn [OF cN] cv [OF Some] \<open>c = ArrCell xs\<close> ArrCell by (simp add: push_new)
            from grows_put [OF g new this] True cN Some \<open>c = ArrCell xs\<close> ArrCell new
            show ?thesis by (simp add: apply_field_def f)
          qed
        qed
      qed
    qed
  qed
qed

lemma apply_fields_grows:
  "new_val (length h0) newObj \<Longrightarrow> new_pairs (length h0) (Inr fs) \<Longrightarrow> grows h0 h \<Longrightarrow>
     grows h0 (snd (apply_fields d h newObj fs)) \<and>
     new_res (length h0) (fst (apply_fields d h newObj fs))"
proof (induction fs arbitrary: h newObj)
  case Nil
  then show ?case by simp
next
  case (Cons f fs)
  obtain k v where f: "f = (k, v)" by (cases f)
  from Cons.prems(2) have nv: "new_val (length h0) (snd f)" and nfs: "new_pairs (length h0) (Inr fs)"
    by (simp_all add: f)
  obtain r h1 where a: "apply_field d h newObj f = (r, h1)" by (cases "apply_field d h newObj f")
  with apply_field_grows [OF Cons.prems(1) nv Cons.prems(3), of d]
  have g1: "grows h0 h1" and nr: "new_res (length h0) r" by simp_all
  show ?case
  proof (cases r)
    case (Inl e)
    with a g1 show ?thesis by simp
  next
    case (Inr newObj1)
    with nr have "new_val (length h0) newObj1" by simp
    from Cons.IH [OF this nfs g1] a Inr show ?thesis by simp
  qed
qed

lemma processMap_grows:
  assumes "new_val (length h0) sourceObj" and "new_val (length h0) newObj" and "grows h0 h"
  shows "grows h0 (snd (processMap d h sourceObj newObj mapSpec)) \<and>
         new_res (length h0) (fst (processMap d h sourceObj newObj mapSpec))"
proof (cases "toMapArray mapSpec")
  case (SArr items)
  obtain r h1 where a: "resolveMapArray h sourceObj (SArr items) = (r, h1)"
    by (cases "resolveMapArray h sourceObj (SArr items)")
  with resolve_grows(1) [OF assms(1,3), of "SArr items"]
  have g1: "grows h0 h1" and nr: "new_pairs (length h0) r" by simp_all
  show ?thesis
  proof (cases r)
    case (Inl e)
    with a g1 SArr show ?thesis by (simp add: processMap_def)
  next
    case (Inr fs)
    from apply_fields_grows [OF assms(2) _ g1, of fs d] nr Inr a SArr show ?thesis
      by (simp add: processMap_def)
  qed
qed (simp_all add: processMap_def assms)

lemma process_all_grows:
  "new_val (length h0) sourceObj \<Longrightarrow> new_val (length h0) newObj \<Longrightarrow> grows h0 h \<Longrightarrow>
     grows h0 (snd (process_all d h sourceObj newObj fields))"
proof (induction fields arbitrary: h newObj)
  case Nil
  then show ?case by simp
next
  case (Cons mapSpec fields)
  obtain r h1 where a: "processMap d h sourceObj newObj mapSpec = (r, h1)"
    by (cases "processMap d h sourceObj newObj mapSpec")
  with processMap_grows [OF Cons.prems, of d mapSpec]
  have g1: "grows h0 h1" and nr: "new_res (length h0) r" by simp_all
  show ?case
  proof (cases r)
    case (Inl e)
    with a g1 show ?thesis by simp
  next
    case (Inr newObj1)
    with nr have "new_val (length h0) newObj1" by simp
    from Cons.IH [OF Cons.prems(1) this g1] a Inr show ?thesis by simp
  qed
qed

lemma mapObject_grows: "grows h (snd (mapObject d h obj fields))"
proof -
  let ?c = "if isArray_s h obj then ArrCell [] else ObjCell []"
  obtain newObj h1 where a: "alloc ?c h = (newObj, h1)" by (cases "alloc ?c h")
  have "new_cell (length h) ?c" by simp
  from grows_alloc [OF grows_refl this a]
  have g1: "grows h h1" and new: "new_val (length h) newObj" by simp_all
  obtain r h2 where c: "clone h1 obj = (r, h2)" by (cases "clone h1 obj")
  with clone_grows [OF g1, of obj] have g2: "grows h h2" and nr: "new_res (length h) r"
    by simp_all
  show ?thesis
  proof (cases r)
    case (Inl e)
    with a c g2 show ?thesis by (simp add: mapObject_def)
  next
    case (Inr sourceObj)
    with nr have "new_val (length h) sourceObj" by simp
    from process_all_grows [OF this new g2, of d fields] a c Inr show ?thesis
      by (simp add: mapObject_def)
  qed
qed

text \<open>
  A store is closed if every reference in its cells is to one of its cells, as in a
  running program. In a closed store, what \<^verbatim>\<open>JSON.stringify\<close> makes of a value depends on
  the cells of that store only.
\<close>

definition in_store :: "nat \<Rightarrow> val \<Rightarrow> bool" where
  "in_store n v = (case v of VRef a \<Rightarrow> a < n | _ \<Rightarrow> True)"

definition closed_cell :: "nat \<Rightarrow> cell \<Rightarrow> bool" where
  "closed_cell n c =
     (case c of
        ObjCell ps \<Rightarrow> list_all (\<lambda>p. in_store n (snd p)) ps
      | ArrCell xs \<Rightarrow> list_all (\<lambda>x. case x of None \<Rightarrow> True | Some v \<Rightarrow> in_store n v) xs)"

definition closed :: "store \<Rightarrow> bool" where
  "closed h = list_all (closed_cell (length h)) h"

lemma snap_props_agree:
  "list_all (\<lambda>p. f (snd p) = g (snd p)) ps \<Longrightarrow> snap_props f ps = snap_props g ps"
  by (induction ps) (auto split: sum.splits)

lemma snap_items_agree:
  "list_all (\<lambda>x. case x of None \<Rightarrow> True | Some v \<Rightarrow> f v = g v) xs \<Longrightarrow>
     snap_items f xs = snap_items g xs"
  by (induction xs) (auto split: option.splits sum.splits)

lemma snapshot_frame:
  assumes c: "closed h" and t: "take (length h) h' = h"
  shows "in_store (length h) v \<Longrightarrow> snapshot n h' v = snapshot n h v"
proof (induction n arbitrary: v)
  case 0
  then show ?case by (cases v) simp_all
next
  case (Suc n)
  show ?case
  proof (cases v)
    case (VRef a)
    with Suc.prems have a: "a < length h" by (simp add: in_store_def)
    from t have "length (take (length h) h') = length h" by simp
    then have len: "length h \<le> length h'" by simp
    from a have "take (length h) h' ! a = h' ! a" by (rule nth_take)
    with t have nth: "h' ! a = h ! a" by simp
    from a len nth have co: "cell_of h' (VRef a) = cell_of h (VRef a)"
      by (simp add: cell_of_def)
    from c a have cc: "closed_cell (length h) (h ! a)"
      by (simp add: closed_def list_all_length)
    show ?thesis
    proof (cases "h ! a")
      case (ObjCell ps)
      with cc have "list_all (\<lambda>p. in_store (length h) (snd p)) ps" by (simp add: closed_cell_def)
      then have "list_all (\<lambda>p. snapshot n h' (snd p) = snapshot n h (snd p)) ps"
        by (simp add: list_all_iff Suc.IH)
      then have "snap_props (\<lambda>v. snapshot n h' v) ps = snap_props (\<lambda>v. snapshot n h v) ps"
        by (rule snap_props_agree)
      with VRef co a ObjCell show ?thesis by (simp add: cell_of_def)
    next
      case (ArrCell xs)
      with cc have "list_all (\<lambda>x. case x of None \<Rightarrow> True | Some v \<Rightarrow> in_store (length h) v) xs"
        by (simp add: closed_cell_def)
      then have "list_all (\<lambda>x. case x of None \<Rightarrow> True
                   | Some v \<Rightarrow> snapshot n h' v = snapshot n h v) xs"
        by (auto simp: list_all_iff Suc.IH split: option.splits)
      then have "snap_items (\<lambda>v. snapshot n h' v) xs = snap_items (\<lambda>v. snapshot n h v) xs"
        by (rule snap_items_agree)
      with VRef co a ArrCell show ?thesis by (simp add: cell_of_def)
    qed
  qed simp_all
qed

text \<open>
  C7. The claim: \<^verbatim>\<open>mapObject(source, ...fieldSpecs)\<close> never mutates \<^verbatim>\<open>source\<close>, for
  instance \<^verbatim>\<open>mapObject({a:{b:1}}, "a.b")\<close> leaves \<^verbatim>\<open>{a:{b:1}}\<close> as it was even though
  the result is \<^verbatim>\<open>{b:1}\<close>. The result of that call is \<^verbatim>\<open>{a:{b:1}}\<close>: without a target
  the whole source path is the identifier (\<^verbatim>\<open>targetPath || sourcePath\<close>), and the value is
  written at that path.
\<close>

theorem path_without_target_result:
  "mapObject_tree 5 (Obj [(''a'', Obj [(''b'', Num 1)])]) [SStr ''a.b'']
     = Inr (Some (Obj [(''a'', Obj [(''b'', Num 1)])]))
   \<and> mapObject_tree 5 (Obj [(''a'', Obj [(''b'', Num 1)])]) [SStr ''a.b'']
     \<noteq> Inr (Some (Obj [(''b'', Num 1)]))"
  by code_simp

text \<open>
  C7, without the result of the example: whatever the store, the source, the field
  specifications and the depth left on the call stack, and whether the call returns or
  throws, every cell that the store had when \<open>mapObject\<close> was called holds after the call
  what it held before; the call only adds cells. So in a closed store the source, and every
  value of that store, is after the call the tree it was before.
\<close>

theorem mapObject_leaves_source:
  "take (length h) (snd (mapObject d h obj fields)) = h
   \<and> (closed h \<longrightarrow> in_store (length h) obj \<longrightarrow>
        snapshot n (snd (mapObject d h obj fields)) obj = snapshot n h obj)"
proof -
  have t: "take (length h) (snd (mapObject d h obj fields)) = h"
    using mapObject_grows [of h d obj fields] by (rule grows_take)
  have "closed h \<Longrightarrow> in_store (length h) obj \<Longrightarrow>
      snapshot n (snd (mapObject d h obj fields)) obj = snapshot n h obj"
    by (rule snapshot_frame [OF _ t])
  with t show ?thesis by blast
qed

theorem mapObject_leaves_source_witness:
  "closed [ObjCell [(''b'', VNum 1)], ObjCell [(''a'', VRef 0)]]
   \<and> in_store (length [ObjCell [(''b'', VNum 1)], ObjCell [(''a'', VRef 0)]]) (VRef 1)
   \<and> fst (mapObject 5 [ObjCell [(''b'', VNum 1)], ObjCell [(''a'', VRef 0)]] (VRef 1)
        [SStr ''a.b'']) = Inr (VRef 2)
   \<and> snapshot 3 (snd (mapObject 5 [ObjCell [(''b'', VNum 1)], ObjCell [(''a'', VRef 0)]] (VRef 1)
        [SStr ''a.b''])) (VRef 1) = Inr (Some (Obj [(''a'', Obj [(''b'', Num 1)])]))"
proof -
  let ?h = "[ObjCell [(''b'', VNum 1)], ObjCell [(''a'', VRef 0)]]"
  have c: "closed ?h" by code_simp
  have i: "in_store (length ?h) (VRef 1)" by code_simp
  have r: "fst (mapObject 5 ?h (VRef 1) [SStr ''a.b'']) = Inr (VRef 2)" by code_simp
  have s: "snapshot 3 ?h (VRef 1) = Inr (Some (Obj [(''a'', Obj [(''b'', Num 1)])]))"
    by code_simp
  from mapObject_leaves_source [of ?h 5 "VRef 1" "[SStr ''a.b'']" 3] c i
  have "snapshot 3 (snd (mapObject 5 ?h (VRef 1) [SStr ''a.b''])) (VRef 1) = snapshot 3 ?h (VRef 1)"
    by blast
  with c i r s show ?thesis by (simp only: simp_thms)
qed

end
